theory Spec2Isabelle
  imports Main "HOL-Library.Sublist"
begin

section \<open>Python strings\<close>

text \<open>
  A Python \<open>str\<close> is a sequence of code points. It is modelled as a \<open>string\<close> in which
  every \<open>char\<close> stands for the code point of the same number, so the model covers the
  strings over the code points 0 to 255 (Latin-1). The character classes below are the
  classes of \<open>str.isspace\<close>, \<open>str.isalpha\<close>, \<open>str.isdigit\<close> and of the \<open>re\<close> module on
  that range.
\<close>

definition code_point :: "char \<Rightarrow> nat" where
  "code_point c = of_char c"

definition isspace :: "char \<Rightarrow> bool" where
  \<comment> \<open>\<open>str.isspace\<close> and the regular expression class \<open>\s\<close>: TAB, LF, VT, FF, CR,
      FS, GS, RS, US, space, NEL and the no-break space.\<close>
  "isspace c = (let n = code_point c in
     (9 \<le> n \<and> n \<le> 13) \<or> (28 \<le> n \<and> n \<le> 32) \<or> n = 133 \<or> n = 160)"

definition isalpha :: "char \<Rightarrow> bool" where
  \<comment> \<open>\<open>str.isalpha\<close>: the ASCII letters, the ordinal indicators, the micro sign and
      the Latin-1 letters (all of 0xC0 to 0xFF but the multiplication and division
      signs).\<close>
  "isalpha c = (let n = code_point c in
     (65 \<le> n \<and> n \<le> 90) \<or> (97 \<le> n \<and> n \<le> 122) \<or> n = 170 \<or> n = 181 \<or> n = 186 \<or>
     (192 \<le> n \<and> n \<le> 214) \<or> (216 \<le> n \<and> n \<le> 246) \<or> (248 \<le> n \<and> n \<le> 255))"

definition isdigit :: "char \<Rightarrow> bool" where
  \<comment> \<open>\<open>str.isdigit\<close>: the decimal digits and the superscripts two, three and one.\<close>
  "isdigit c = (let n = code_point c in
     (48 \<le> n \<and> n \<le> 57) \<or> n = 178 \<or> n = 179 \<or> n = 185)"

definition lstrip :: "string \<Rightarrow> string" where
  "lstrip s = dropWhile isspace s"

definition rstrip :: "string \<Rightarrow> string" where
  "rstrip s = rev (dropWhile isspace (rev s))"

definition strip :: "string \<Rightarrow> string" where
  "strip s = rstrip (lstrip s)"

definition is_linebreak :: "char \<Rightarrow> bool" where
  \<comment> \<open>The line boundaries of \<open>str.splitlines\<close>: LF, VT, FF, CR, FS, GS, RS and NEL.\<close>
  "is_linebreak c = (let n = code_point c in
     (10 \<le> n \<and> n \<le> 13) \<or> (28 \<le> n \<and> n \<le> 30) \<or> n = 133)"

fun splitlines :: "string \<Rightarrow> string list" where
  "splitlines [] = []"
| "splitlines [c] = (if is_linebreak c then [[]] else [[c]])"
| "splitlines (c # d # cs) =
     (if c = CHR 0x0D \<and> d = CHR 0x0A then [] # splitlines cs
      else if is_linebreak c then [] # splitlines (d # cs)
      else (case splitlines (d # cs) of
              [] \<Rightarrow> [[c]]
            | l # ls \<Rightarrow> (c # l) # ls))"

definition escape_char :: "char \<Rightarrow> string" where
  "escape_char c =
     (if c = CHR ''&'' then ''&amp;''
      else if c = CHR ''<'' then ''&lt;''
      else if c = CHR ''>'' then ''&gt;''
      else if c = CHR 0x22 then ''&quot;''
      else if c = CHR 0x27 then ''&#x27;''
      else [c])"

definition escape :: "string \<Rightarrow> string" where
  \<comment> \<open>\<open>html.escape\<close> with its default \<open>quote=True\<close>.\<close>
  "escape s = concat (map escape_char s)"

definition is_numeric_other :: "char \<Rightarrow> bool" where
  \<comment> \<open>The remaining characters of \<open>str.isalnum\<close>: the vulgar fractions, which are
      numeric but neither alphabetic nor digits.\<close>
  "is_numeric_other c = (let n = code_point c in 188 \<le> n \<and> n \<le> 190)"

definition isalnum :: "char \<Rightarrow> bool" where
  "isalnum c = (isalpha c \<or> isdigit c \<or> is_numeric_other c)"

definition is_word_char :: "char \<Rightarrow> bool" where
  \<comment> \<open>The regular expression class \<open>\w\<close>: alphanumeric or the underscore.\<close>
  "is_word_char c = (isalnum c \<or> c = CHR ''_'')"

definition is_ascii_letter :: "char \<Rightarrow> bool" where
  \<comment> \<open>The regular expression class \<open>[A-Za-z]\<close>.\<close>
  "is_ascii_letter c = (let n = code_point c in
     (65 \<le> n \<and> n \<le> 90) \<or> (97 \<le> n \<and> n \<le> 122))"

definition is_decimal :: "char \<Rightarrow> bool" where
  \<comment> \<open>The regular expression class \<open>\d\<close>: the decimal digits.\<close>
  "is_decimal c = (let n = code_point c in 48 \<le> n \<and> n \<le> 57)"

definition lower_char :: "char \<Rightarrow> char" where
  \<comment> \<open>\<open>str.lower\<close> on one character: the ASCII capitals and the Latin-1 capitals
      (0xC0 to 0xDE but the multiplication sign) move up by 32.\<close>
  "lower_char c = (let n = code_point c in
     if (65 \<le> n \<and> n \<le> 90) \<or> (192 \<le> n \<and> n \<le> 222 \<and> n \<noteq> 215)
     then char_of (n + 32) else c)"

definition lower :: "string \<Rightarrow> string" where
  "lower s = map lower_char s"

definition endswith :: "string \<Rightarrow> string \<Rightarrow> bool" where
  "endswith s suf = suffix suf s"

fun join :: "string \<Rightarrow> string list \<Rightarrow> string" where
  "join sep [] = []"
| "join sep [x] = x"
| "join sep (x # y # ys) = x @ sep @ join sep (y # ys)"

fun split_on :: "char \<Rightarrow> string \<Rightarrow> string list" where
  \<comment> \<open>\<open>s.split(sep)\<close> for a separator of one character: never empty.\<close>
  "split_on sep [] = [[]]"
| "split_on sep (c # cs) =
     (if c = sep then [] # split_on sep cs
      else (case split_on sep cs of
              [] \<Rightarrow> [[c]]
            | l # ls \<Rightarrow> (c # l) # ls))"

fun split_ws_from :: "string \<Rightarrow> string \<Rightarrow> string list" where
  "split_ws_from cur [] = (if cur = [] then [] else [cur])"
| "split_ws_from cur (c # cs) =
     (if isspace c then (if cur = [] then split_ws_from [] cs else cur # split_ws_from [] cs)
      else split_ws_from (cur @ [c]) cs)"

definition split_ws :: "string \<Rightarrow> string list" where
  \<comment> \<open>\<open>s.split()\<close>: the maximal runs of characters that are not whitespace.\<close>
  "split_ws s = split_ws_from [] s"

function replace :: "string \<Rightarrow> string \<Rightarrow> string \<Rightarrow> string" where
  \<comment> \<open>\<open>s.replace(old, new)\<close>: every occurrence of \<open>old\<close>, left to right, without
      overlap; an empty \<open>old\<close> matches before every character and at the end.\<close>
  "replace old new s =
     (if old = [] then new @ concat (map (\<lambda>c. c # new) s)
      else if s = [] then []
      else if take (length old) s = old then new @ replace old new (drop (length old) s)
      else hd s # replace old new (tl s))"
  by pat_completeness auto
termination
  by (relation "measure (\<lambda>(old, new, s). length s)") auto

declare replace.simps [simp del]

definition digit_char :: "nat \<Rightarrow> char" where
  "digit_char d = char_of (48 + d)"

function str_nat :: "nat \<Rightarrow> string" where
  \<comment> \<open>The decimal numeral of a natural number, as \<open>str\<close> and f-strings write it.\<close>
  "str_nat n = (if n < 10 then [digit_char n] else str_nat (n div 10) @ [digit_char (n mod 10)])"
  by pat_completeness auto
termination
  by (relation "measure id") auto

declare str_nat.simps [simp del]

definition basename :: "string \<Rightarrow> string" where
  \<comment> \<open>\<open>os.path.basename\<close> (POSIX): what follows the last slash.\<close>
  "basename p = rev (takeWhile (\<lambda>c. c \<noteq> CHR ''/'') (rev p))"

definition splitext :: "string \<Rightarrow> string \<times> string" where
  \<comment> \<open>\<open>os.path.splitext\<close> (POSIX): the extension starts at the last dot of the base
      name, unless only dots stand before it in the base name.\<close>
  "splitext p =
     (let b = basename p;
          ext_len = Suc (length (takeWhile (\<lambda>c. c \<noteq> CHR ''.'') (rev b)))
      in if CHR ''.'' \<in> set b \<and> list_ex (\<lambda>c. c \<noteq> CHR ''.'') (take (length b - ext_len) b)
         then (take (length p - ext_len) p, drop (length p - ext_len) p)
         else (p, []))"

definition path_join :: "string \<Rightarrow> string \<Rightarrow> string" where
  \<comment> \<open>\<open>os.path.join\<close> (POSIX) of two components.\<close>
  "path_join a b =
     (if b \<noteq> [] \<and> hd b = CHR ''/'' then b
      else if a = [] \<or> last a = CHR ''/'' then a @ b
      else a @ ''/'' @ b)"

definition or_else :: "string option \<Rightarrow> string \<Rightarrow> string" where
  \<comment> \<open>Python's \<open>x or d\<close> for an optional string: \<open>None\<close> and the empty string are
      false.\<close>
  "or_else x d = (case x of None \<Rightarrow> d | Some s \<Rightarrow> if s = [] then d else s)"

definition if_truthy :: "string option \<Rightarrow> string option" where
  \<comment> \<open>Python's \<open>x if x else None\<close> for an optional string.\<close>
  "if_truthy x = (case x of None \<Rightarrow> None | Some s \<Rightarrow> if s = [] then None else Some s)"

fun dict_set :: "('k \<times> 'v) list \<Rightarrow> 'k \<Rightarrow> 'v \<Rightarrow> ('k \<times> 'v) list" where
  \<comment> \<open>\<open>d[k] = v\<close> on a dictionary kept in insertion order: a present key keeps its
      place, a new key goes to the end.\<close>
  "dict_set [] k v = [(k, v)]"
| "dict_set ((k', v') # d) k v = (if k' = k then (k, v) # d else (k', v') # dict_set d k v)"

section \<open>Data structures\<close>

text \<open>
  The dataclasses of \<open>reader4.py\<close>. Field names are global in a theory, so the fields
  of \<open>ChapterContent\<close> carry the prefix \<open>ch_\<close> and the \<open>title\<close> and \<open>href\<close> of a
  \<open>TOCEntry\<close> the prefix \<open>toc_\<close>. \<open>order\<close> is the index of an \<open>enumerate\<close>, a natural
  number; Python's \<open>enumerate(xs)\<close> is \<open>enumerate 0 xs\<close>.
\<close>

record ChapterContent =
  ch_id :: string
  ch_href :: string
  ch_title :: string
  ch_content :: string
  ch_text :: string
  ch_order :: nat

datatype TOCEntry =
  TOCEntry (toc_title: string) (toc_href: string) (file_href: string) (anchor: string)
    (children: "TOCEntry list")

record BookMetadata =
  title :: string
  language :: string
  authors :: "string list"
  description :: "string option"
  publisher :: "string option"
  date :: "string option"
  identifiers :: "string list"
  subjects :: "string list"

record Book =
  metadata :: BookMetadata
  spine :: "ChapterContent list"
  toc :: "TOCEntry list"
  images :: "(string \<times> string) list"
  source_file :: string
  processed_at :: string
  version :: string

section \<open>Utilities\<close>

definition text_to_html :: "string \<Rightarrow> string" where
  "text_to_html txt =
     (let lines = map strip (filter (\<lambda>line. strip line \<noteq> []) (splitlines txt))
      in if lines = [] then ''<p></p>''
         else concat (map (\<lambda>line. ''<p>'' @ escape line @ ''</p>'') lines))"

subsection \<open>The text normalizer\<close>

definition is_hyphen :: "char \<Rightarrow> bool" where
  \<comment> \<open>The class \<open>[-\u2010\u2011\u00AD]\<close> on the modelled range: the hyphen-minus and
      the soft hyphen (the hyphen and the non-breaking hyphen lie beyond it).\<close>
  "is_hyphen c = (c = CHR ''-'' \<or> code_point c = 173)"

definition hyphen_break :: "string \<Rightarrow> (char \<times> char \<times> string) option" where
  \<comment> \<open>A match of \<open>([A-Za-z])[-\u2010\u2011\u00AD]\s*\n\s*([A-Za-z])\<close> at the start of
      \<open>s\<close>: the two letters and what follows the match. A letter is not whitespace, so
      the whitespace between the hyphen and the second letter is the whole run, and
      the run has to hold a line feed.\<close>
  "hyphen_break s =
     (case s of
        a # h # rest \<Rightarrow>
          (let ws = takeWhile isspace rest; after = dropWhile isspace rest
           in if is_ascii_letter a \<and> is_hyphen h \<and> CHR 0x0A \<in> set ws
                 \<and> after \<noteq> [] \<and> is_ascii_letter (hd after)
              then Some (a, hd after, tl after) else None)
      | _ \<Rightarrow> None)"

lemma hyphen_break_shorter: "hyphen_break s = Some (a, b, rest) \<Longrightarrow> length rest < length s"
proof -
  assume h: "hyphen_break s = Some (a, b, rest)"
  then obtain x y r where s: "s = x # y # r"
    by (cases s; cases "tl s") (auto simp: hyphen_break_def)
  from h s have "rest = tl (dropWhile isspace r)"
    by (auto simp: hyphen_break_def Let_def split: if_splits)
  moreover have "length (tl (dropWhile isspace r)) \<le> length r"
    using length_dropWhile_le [of isspace r] by simp
  ultimately show ?thesis using s by simp
qed

function merge_hyphenated :: "string \<Rightarrow> string" where
  \<comment> \<open>\<open>re.sub\<close> of the pattern above by \<open>\1\2\<close>: the leftmost match, then on from
      the end of that match.\<close>
  "merge_hyphenated s =
     (case s of
        [] \<Rightarrow> []
      | c # cs \<Rightarrow>
          (case hyphen_break s of
             Some (a, b, rest) \<Rightarrow> a # b # merge_hyphenated rest
           | None \<Rightarrow> c # merge_hyphenated cs))"
  by pat_completeness auto
termination
  by (relation "measure length") (auto dest: hyphen_break_shorter)

declare merge_hyphenated.simps [simp del]

definition is_list_item :: "string \<Rightarrow> bool" where
  \<comment> \<open>\<open>re.match(r"^([-*]|\d+[.)])\s", s)\<close>.\<close>
  "is_list_item s =
     (case s of
        [] \<Rightarrow> False
      | c # cs \<Rightarrow>
          if c = CHR ''-'' \<or> c = CHR ''*'' then (cs \<noteq> [] \<and> isspace (hd cs))
          else (takeWhile is_decimal s \<noteq> [] \<and>
                (case dropWhile is_decimal s of
                   p # w # _ \<Rightarrow> (p = CHR ''.'' \<or> p = CHR '')'') \<and> isspace w
                 | _ \<Rightarrow> False)))"

definition is_terminal :: "char \<Rightarrow> bool" where
  "is_terminal c = (c \<in> set ''.!?:;)'')"

definition ends_terminal :: "string \<Rightarrow> bool" where
  \<comment> \<open>\<open>re.search(r"[.!?:;)]$", s)\<close>: the dollar matches at the end of the string
      and before a line feed that ends it.\<close>
  "ends_terminal s =
     (case rev s of
        [] \<Rightarrow> False
      | c # r \<Rightarrow> is_terminal c \<or> (c = CHR 0x0A \<and> r \<noteq> [] \<and> is_terminal (hd r)))"

definition rebuild_step :: "string list \<Rightarrow> string \<Rightarrow> string list" where
  \<comment> \<open>One round of the loop over \<open>lines\<close>, on the list \<open>rebuilt\<close>.\<close>
  "rebuild_step rebuilt line =
     (let stripped = strip line
      in if stripped = [] then rebuilt @ [[]]
         else if rebuilt = [] \<or> last rebuilt = [] then rebuilt @ [stripped]
         else (let prev = last rebuilt
               in if is_list_item stripped then rebuilt @ [stripped]
                  else if \<not> ends_terminal prev
                  then butlast rebuilt @ [prev @ '' '' @ stripped]
                  else rebuilt @ [stripped]))"

definition compact_step :: "string list \<Rightarrow> string \<Rightarrow> string list" where
  \<comment> \<open>One round of the loop over \<open>rebuilt\<close>, on the list \<open>compact\<close>.\<close>
  "compact_step compact line =
     (if line = [] \<and> compact \<noteq> [] \<and> last compact = [] then compact
      else compact @ [line])"

definition normalize_pdf_text :: "string \<Rightarrow> string" where
  "normalize_pdf_text txt =
     (if txt = [] then []
      else (let normalized = replace [CHR 0x0D] [CHR 0x0A]
                               (replace [CHR 0x0D, CHR 0x0A] [CHR 0x0A] txt);
                normalized = merge_hyphenated normalized;
                lines = split_on (CHR 0x0A) normalized;
                rebuilt = foldl rebuild_step [] lines;
                compact = foldl compact_step [] rebuilt
            in strip (join [CHR 0x0A] compact)))"

section \<open>The environment\<close>

text \<open>
  What the program reads from its libraries and from the file system, as data. An EPUB
  read by \<open>ebooklib\<close> is its Dublin Core metadata, its items, its navigation structure
  and its spine; a PDF read by \<open>pypdf\<close> is its document information, the text of its
  pages and its outline.
\<close>

datatype item_type = ITEM_DOCUMENT | ITEM_IMAGE | ITEM_OTHER

record epub_item =
  item_id :: string
  item_name :: string
  item_type :: item_type
  item_content :: string

record nav_node =
  nav_title :: string
  nav_href :: string

datatype toc_item =
  Pair nav_node "toc_item list"
| Link nav_node
| Section nav_node
| Other

record epub_book =
  dc_metadata :: "string \<Rightarrow> string list"
  book_items :: "epub_item list"
  book_toc :: "toc_item list"
  book_spine :: "(string \<times> string) list"

datatype page_lookup = Raises | NoPage | PageNumber int

datatype outline_item =
  Destination (dest_title: "string option") (dest_page: page_lookup)
| Nested "outline_item list"

record pdf_reader =
  pdf_metadata :: "(string \<Rightarrow> string option) option"
  pdf_pages :: "string option list"
  pdf_outline :: "outline_item list option"

text \<open>
  The file system and the clock. \<open>read_epub\<close> and \<open>read_pdf\<close> give \<open>None\<close> where the
  library raises (a missing or unreadable file); \<open>can_write\<close> says whether a file can be
  opened for writing. \<open>render_html\<close> stands for the work of BeautifulSoup on one
  content document (the image references rewritten by the image map, the unsafe
  elements and the comments removed, the body extracted): it gives the markup and the
  plain text. \<open>str_title\<close> is \<open>str.title\<close>, whose result can leave the modelled range
  of code points. Console output is not modelled.
\<close>

record env =
  read_epub :: "string \<Rightarrow> epub_book option"
  read_pdf :: "string \<Rightarrow> pdf_reader option"
  path_exists :: "string \<Rightarrow> bool"
  can_write :: "string \<Rightarrow> bool"
  now :: string
  render_html :: "(string \<times> string) list \<Rightarrow> string \<Rightarrow> string \<times> string"
  str_title :: "string \<Rightarrow> string"

datatype error = UnsupportedFormat | ReadError | WriteError

datatype effect = ReadFile string | Rmtree string | Makedirs string | WriteFile string

section \<open>The table of contents of an EPUB\<close>

definition split_href :: "string \<Rightarrow> string \<times> string" where
  \<comment> \<open>\<open>h.split('#')[0]\<close> and \<open>h.split('#')[1] if '#' in h else ""\<close>. The split of a
      string is never empty, and has a second part when the string holds the
      separator.\<close>
  "split_href h =
     (hd (split_on (CHR ''#'') h),
      if CHR ''#'' \<in> set h then split_on (CHR ''#'') h ! 1 else [])"

definition entry_of :: "nav_node \<Rightarrow> TOCEntry list \<Rightarrow> TOCEntry" where
  "entry_of n cs =
     TOCEntry (nav_title n) (nav_href n) (fst (split_href (nav_href n)))
       (snd (split_href (nav_href n))) cs"

fun parse_toc_recursive :: "toc_item list \<Rightarrow> nat \<Rightarrow> TOCEntry list" where
  "parse_toc_recursive [] depth = []"
| "parse_toc_recursive (Pair section cs # items) depth =
     entry_of section (parse_toc_recursive cs (depth + 1)) # parse_toc_recursive items depth"
| "parse_toc_recursive (Link item # items) depth =
     entry_of item [] # parse_toc_recursive items depth"
| "parse_toc_recursive (Section item # items) depth =
     entry_of item [] # parse_toc_recursive items depth"
| "parse_toc_recursive (Other # items) depth = parse_toc_recursive items depth"

definition get_fallback_toc :: "env \<Rightarrow> epub_book \<Rightarrow> TOCEntry list" where
  "get_fallback_toc e book_obj =
     map (\<lambda>item.
            (let name = item_name item;
                 t = str_title e
                       (replace ''_'' '' '' (replace ''.xhtml'' [] (replace ''.html'' [] name)))
             in TOCEntry t name name [] []))
         (filter (\<lambda>item. item_type item = ITEM_DOCUMENT) (book_items book_obj))"

section \<open>Metadata of an EPUB\<close>

definition get_list :: "epub_book \<Rightarrow> string \<Rightarrow> string list" where
  "get_list book_obj key = dc_metadata book_obj key"

definition get_one :: "epub_book \<Rightarrow> string \<Rightarrow> string option" where
  "get_one book_obj key =
     (case dc_metadata book_obj key of [] \<Rightarrow> None | x # _ \<Rightarrow> Some x)"

definition extract_metadata_robust :: "epub_book \<Rightarrow> BookMetadata" where
  "extract_metadata_robust book_obj =
     \<lparr> title = or_else (get_one book_obj ''title'') ''Untitled'',
       language = or_else (get_one book_obj ''language'') ''en'',
       authors = get_list book_obj ''creator'',
       description = get_one book_obj ''description'',
       publisher = get_one book_obj ''publisher'',
       date = get_one book_obj ''date'',
       identifiers = get_list book_obj ''identifier'',
       subjects = get_list book_obj ''subject'' \<rparr>"

section \<open>Conversion of an EPUB\<close>

definition safe_name :: "string \<Rightarrow> string" where
  \<comment> \<open>The sanitized file name of an image, from its original file name.\<close>
  "safe_name original_fname =
     strip (filter (\<lambda>c. isalpha c \<or> isdigit c \<or> c \<in> set ''._-'') original_fname)"

fun extract_images ::
  "env \<Rightarrow> string \<Rightarrow> epub_item list \<Rightarrow> (string \<times> string) list \<Rightarrow> effect list
     \<Rightarrow> (error + (string \<times> string) list) \<times> effect list" where
  \<comment> \<open>The loop over the items of the book that writes the images and fills the image
      map; a file that cannot be written ends the run.\<close>
  "extract_images e images_dir [] image_map fx = (Inr image_map, fx)"
| "extract_images e images_dir (item # items) image_map fx =
     (if item_type item = ITEM_IMAGE then
        (let original_fname = basename (item_name item);
             safe_fname = safe_name original_fname;
             local_path = path_join images_dir safe_fname
         in if can_write e local_path then
              (let rel_path = ''images/'' @ safe_fname
               in extract_images e images_dir items
                    (dict_set (dict_set image_map (item_name item) rel_path)
                       original_fname rel_path)
                    (fx @ [WriteFile local_path]))
            else (Inl WriteError, fx))
      else extract_images e images_dir items image_map fx)"

definition get_item_with_id :: "epub_book \<Rightarrow> string \<Rightarrow> epub_item option" where
  "get_item_with_id book uid = find (\<lambda>item. item_id item = uid) (book_items book)"

definition chapter_step ::
  "env \<Rightarrow> epub_book \<Rightarrow> (string \<times> string) list \<Rightarrow> ChapterContent list
     \<Rightarrow> nat \<times> string \<times> string \<Rightarrow> ChapterContent list" where
  \<comment> \<open>One round of the loop over the enumerated spine, on \<open>spine_chapters\<close>.\<close>
  "chapter_step e book image_map spine_chapters entry =
     (case entry of (i, uid, linear) \<Rightarrow>
        (case get_item_with_id book uid of
           None \<Rightarrow> spine_chapters
         | Some item \<Rightarrow>
             if item_type item = ITEM_DOCUMENT then
               (let rendered = render_html e image_map (item_content item)
                in spine_chapters @
                   [\<lparr> ch_id = uid,
                      ch_href = item_name item,
                      ch_title = ''Section '' @ str_nat (i + 1),
                      ch_content = fst rendered,
                      ch_text = snd rendered,
                      ch_order = i \<rparr>])
             else spine_chapters))"

definition process_epub :: "env \<Rightarrow> string \<Rightarrow> string \<Rightarrow> (error + Book) \<times> effect list" where
  "process_epub e epub_path output_dir =
     (if \<not> endswith (lower epub_path) ''.epub'' then (Inl UnsupportedFormat, [])
      else (case read_epub e epub_path of
              None \<Rightarrow> (Inl ReadError, [ReadFile epub_path])
            | Some book \<Rightarrow>
                (let md = extract_metadata_robust book;
                     images_dir = path_join output_dir ''images'';
                     fx = [ReadFile epub_path]
                          @ (if path_exists e output_dir then [Rmtree output_dir] else [])
                          @ [Makedirs images_dir]
                 in (case extract_images e images_dir (book_items book) [] fx of
                       (Inl err, fx') \<Rightarrow> (Inl err, fx')
                     | (Inr image_map, fx') \<Rightarrow>
                         (let parsed = parse_toc_recursive (book_toc book) 0;
                              toc_structure =
                                (if parsed = [] then get_fallback_toc e book else parsed);
                              spine_chapters =
                                foldl (chapter_step e book image_map) []
                                  (enumerate 0 (book_spine book))
                          in (Inr \<lparr> metadata = md,
                                    spine = spine_chapters,
                                    toc = toc_structure,
                                    images = image_map,
                                    source_file = basename epub_path,
                                    processed_at = now e,
                                    version = ''3.0'' \<rparr>, fx'))))))"

section \<open>The outline of a PDF\<close>

record level_entry =
  le_title :: string
  le_page :: nat
  le_level :: nat

record outline_entry =
  entry_title :: string
  entry_page :: nat

definition word_boundary :: "string \<Rightarrow> nat \<Rightarrow> bool" where
  \<comment> \<open>The assertion \<open>\b\<close> at index \<open>i\<close>: a word character on exactly one side.\<close>
  "word_boundary s i =
     ((0 < i \<and> i \<le> length s \<and> is_word_char (s ! (i - 1)))
        \<noteq> (i < length s \<and> is_word_char (s ! i)))"

definition keyword_at :: "string \<Rightarrow> nat \<Rightarrow> string \<Rightarrow> bool" where
  \<comment> \<open>The lower-case keyword \<open>kw\<close> stands at index \<open>i\<close> of \<open>s\<close>, whatever the case of
      its letters there, between two word boundaries.\<close>
  "keyword_at s i kw =
     (i + length kw \<le> length s \<and> lower (take (length kw) (drop i s)) = kw
      \<and> word_boundary s i \<and> word_boundary s (i + length kw))"

definition search_keywords :: "string list \<Rightarrow> string \<Rightarrow> bool" where
  \<comment> \<open>\<open>re.search\<close> of \<open>\b(k1|k2|...)\b\<close> with \<open>re.IGNORECASE\<close>: some keyword
      stands somewhere.\<close>
  "search_keywords kws s =
     list_ex (\<lambda>i. list_ex (keyword_at s i) kws) [0..<Suc (length s)]"

definition chapter_like :: "string \<Rightarrow> bool" where
  "chapter_like s =
     search_keywords [''chapter'', ''chap.'', ''prologue'', ''epilogue'', ''appendix''] s"

definition part_like :: "string \<Rightarrow> bool" where
  "part_like s = search_keywords [''part'', ''book'', ''section''] s"

definition as_entry :: "outline_item \<Rightarrow> nat \<Rightarrow> level_entry option" where
  "as_entry item level =
     (case item of
        Nested _ \<Rightarrow> None
      | Destination t p \<Rightarrow>
          (case t of
             None \<Rightarrow> None
           | Some ttl \<Rightarrow>
               if ttl = [] then None
               else (case p of
                       Raises \<Rightarrow> None
                     | NoPage \<Rightarrow> None
                     | PageNumber n \<Rightarrow>
                         if n < 0 then None
                         else Some \<lparr> le_title = strip ttl, le_page = nat n,
                                     le_level = level \<rparr>)))"

fun unique_by_page :: "nat list \<Rightarrow> level_entry list \<Rightarrow> level_entry list" where
  \<comment> \<open>The loop over \<open>sorted_entries\<close>, with the pages seen so far.\<close>
  "unique_by_page seen_pages [] = []"
| "unique_by_page seen_pages (entry # entries) =
     (if le_page entry \<in> set seen_pages then unique_by_page seen_pages entries
      else entry # unique_by_page (le_page entry # seen_pages) entries)"

definition dedupe_by_page :: "level_entry list \<Rightarrow> level_entry list" where
  "dedupe_by_page entries =
     (let dedup = foldl (\<lambda>d e. dict_set d (le_title e, le_page e) e) [] entries;
          sorted_entries = sort_key le_page (map snd dedup)
      in unique_by_page [] sorted_entries)"

fun dict_append :: "('k \<times> 'v list) list \<Rightarrow> 'k \<Rightarrow> 'v \<Rightarrow> ('k \<times> 'v list) list" where
  \<comment> \<open>\<open>d.setdefault(k, []).append(v)\<close> on a dictionary kept in insertion order.\<close>
  "dict_append [] k v = [(k, [v])]"
| "dict_append ((k', vs) # d) k v =
     (if k' = k then (k', vs @ [v]) # d else (k', vs) # dict_append d k v)"

fun walk ::
  "outline_item list \<Rightarrow> nat \<Rightarrow> (nat \<times> level_entry list) list
     \<Rightarrow> (nat \<times> level_entry list) list" where
  \<comment> \<open>The walk over the outline, on the dictionary \<open>entries_by_level\<close>.\<close>
  "walk [] level by_level = by_level"
| "walk (Nested sub # items) level by_level =
     walk items level (walk sub (level + 1) by_level)"
| "walk (Destination t p # items) level by_level =
     walk items level
       (case as_entry (Destination t p) level of
          None \<Rightarrow> by_level
        | Some entry \<Rightarrow> dict_append by_level level entry)"

definition without_level :: "level_entry list \<Rightarrow> outline_entry list" where
  "without_level entries =
     map (\<lambda>e. \<lparr> entry_title = le_title e, entry_page = le_page e \<rparr>) entries"

definition count_where :: "('a \<Rightarrow> bool) \<Rightarrow> 'a list \<Rightarrow> nat" where
  "count_where P xs = length (filter P xs)"

definition score_greater :: "nat \<times> nat \<Rightarrow> nat \<times> nat \<Rightarrow> bool" where
  \<comment> \<open>The order of the scores \<open>(count, count / size, size)\<close>, a score written as its
      count and its size: the ratios are compared by cross-multiplication, which is
      the order of the floating-point quotients as long as the product of two level
      sizes stays below \<open>2^53\<close>.\<close>
  "score_greater a b =
     (case (a, b) of
        ((c1, n1), (c2, n2)) \<Rightarrow>
          c1 > c2 \<or>
          (c1 = c2 \<and> (c1 * n2 > c2 * n1 \<or> (c1 * n2 = c2 * n1 \<and> n1 > n2))))"

definition best_step ::
  "(nat \<times> nat \<times> nat) option \<Rightarrow> nat \<times> level_entry list \<Rightarrow> (nat \<times> nat \<times> nat) option" where
  \<comment> \<open>One round of the loop over the levels, on \<open>best_level\<close> and \<open>best_score\<close>.\<close>
  "best_step best lv =
     (case lv of (level, entries) \<Rightarrow>
        if length entries < 3 then best
        else (let score = (count_where (\<lambda>e. chapter_like (le_title e)) entries,
                           length entries)
              in (case best of
                    None \<Rightarrow> Some (level, score)
                  | Some (best_level, best_score) \<Rightarrow>
                      if score_greater score best_score then Some (level, score)
                      else best)))"

definition dict_get :: "('k \<times> 'v) list \<Rightarrow> 'k \<Rightarrow> 'v option" where
  "dict_get d k = map_of d k"

definition fallback_entries :: "(nat \<times> level_entry list) list \<Rightarrow> outline_entry list" where
  \<comment> \<open>Level 0 when there is one, else the shallowest level.\<close>
  "fallback_entries normalized_by_level =
     (let keys = map fst normalized_by_level;
          fallback_level = (if 0 \<in> set keys then 0 else fold min keys (hd keys))
      in without_level
           (case dict_get normalized_by_level fallback_level of None \<Rightarrow> [] | Some es \<Rightarrow> es))"

definition select_level :: "(nat \<times> level_entry list) list \<Rightarrow> outline_entry list" where
  \<comment> \<open>The choice of a level among the levels of \<open>normalized_by_level\<close>, which is not
      empty.\<close>
  "select_level normalized_by_level =
     (let top_entries = (case dict_get normalized_by_level 0 of None \<Rightarrow> [] | Some es \<Rightarrow> es);
          part_like_count = count_where (\<lambda>e. part_like (le_title e)) top_entries;
          level1 = (case dict_get normalized_by_level 1 of None \<Rightarrow> [] | Some es \<Rightarrow> es)
      in if top_entries \<noteq> [] \<and> part_like_count \<ge> max 2 (length top_entries div 2)
            \<and> level1 \<noteq> []
         then without_level level1
         else (case foldl best_step None normalized_by_level of
                 Some (best_level, (c, n)) \<Rightarrow>
                   if c \<ge> 3
                   then without_level
                          (case dict_get normalized_by_level best_level of
                             None \<Rightarrow> [] | Some es \<Rightarrow> es)
                   else fallback_entries normalized_by_level
               | None \<Rightarrow> fallback_entries normalized_by_level))"

definition get_pdf_outline_entries :: "pdf_reader \<Rightarrow> outline_entry list" where
  "get_pdf_outline_entries reader =
     (let outline = (case pdf_outline reader of None \<Rightarrow> [] | Some items \<Rightarrow> items);
          entries_by_level = (if outline \<noteq> [] then walk outline 0 [] else [])
      in if entries_by_level = [] then []
         else select_level
                (map (\<lambda>(level, entries). (level, dedupe_by_page entries)) entries_by_level))"

section \<open>Conversion of a PDF\<close>

definition pdf_metadata_of :: "pdf_reader \<Rightarrow> string \<Rightarrow> BookMetadata" where
  "pdf_metadata_of reader pdf_path =
     (let doc_meta = (case pdf_metadata reader of None \<Rightarrow> (\<lambda>k. None) | Some m \<Rightarrow> m);
          author = doc_meta ''/Author''
      in \<lparr> title = or_else (doc_meta ''/Title'') (fst (splitext (basename pdf_path))),
           language = ''en'',
           authors = (case if_truthy author of None \<Rightarrow> [] | Some a \<Rightarrow> [a]),
           description = if_truthy (doc_meta ''/Subject''),
           publisher = if_truthy (doc_meta ''/Producer''),
           date = if_truthy (doc_meta ''/CreationDate''),
           identifiers = [],
           subjects = [] \<rparr>)"

definition pdf_chapter :: "string \<Rightarrow> string \<Rightarrow> string \<Rightarrow> nat \<Rightarrow> ChapterContent" where
  "pdf_chapter h t body i =
     \<lparr> ch_id = h, ch_href = h, ch_title = t, ch_content = text_to_html body,
       ch_text = join '' '' (split_ws body), ch_order = i \<rparr>"

definition outline_step ::
  "string list \<Rightarrow> nat list \<Rightarrow> ChapterContent list \<times> TOCEntry list \<Rightarrow> nat \<times> outline_entry
     \<Rightarrow> ChapterContent list \<times> TOCEntry list" where
  \<comment> \<open>One round of the loop over the enumerated outline entries, on \<open>spine_chapters\<close>
      and \<open>toc_structure\<close>. The index \<open>i + 1\<close> is within \<open>starts\<close>, which is one longer
      than the outline.\<close>
  "outline_step page_texts starts acc ie =
     (case (acc, ie) of
        ((spine_chapters, toc_structure), (i, entry)) \<Rightarrow>
          (let start = starts ! i; end0 = starts ! (i + 1)
           in if start \<ge> length page_texts then (spine_chapters, toc_structure)
              else (let end1 = max (start + 1) (min end0 (length page_texts));
                        segment_text =
                          strip (join [CHR 0x0A, CHR 0x0A]
                                   (take (end1 - start) (drop start page_texts)));
                        h = ''chapter-'' @ str_nat (i + 1);
                        chapter_title =
                          (if entry_title entry \<noteq> [] then entry_title entry
                           else ''Chapter '' @ str_nat (i + 1))
                    in (spine_chapters @ [pdf_chapter h chapter_title segment_text i],
                        toc_structure @ [TOCEntry chapter_title h h [] []]))))"

definition page_step ::
  "ChapterContent list \<times> TOCEntry list \<Rightarrow> nat \<times> string
     \<Rightarrow> ChapterContent list \<times> TOCEntry list" where
  \<comment> \<open>One round of the loop over the enumerated pages.\<close>
  "page_step acc ip =
     (case (acc, ip) of
        ((spine_chapters, toc_structure), (i, page_text)) \<Rightarrow>
          (let h = ''page-'' @ str_nat (i + 1);
               page_title = ''Page '' @ str_nat (i + 1)
           in (spine_chapters @ [pdf_chapter h page_title page_text i],
               toc_structure @ [TOCEntry page_title h h [] []])))"

definition pdf_chapters ::
  "string list \<Rightarrow> outline_entry list \<Rightarrow> ChapterContent list \<times> TOCEntry list" where
  "pdf_chapters page_texts outline_entries =
     (if outline_entries \<noteq> [] then
        (let starts = map entry_page outline_entries @ [length page_texts]
         in foldl (outline_step page_texts starts) ([], []) (enumerate 0 outline_entries))
      else foldl page_step ([], []) (enumerate 0 page_texts))"

definition extract_page_texts :: "pdf_reader \<Rightarrow> string list" where
  \<comment> \<open>The loop over \<open>reader.pages\<close> that fills \<open>page_texts\<close>.\<close>
  "extract_page_texts reader =
     map (\<lambda>t. normalize_pdf_text (or_else t [])) (pdf_pages reader)"

definition process_pdf :: "env \<Rightarrow> string \<Rightarrow> string \<Rightarrow> (error + Book) \<times> effect list" where
  "process_pdf e pdf_path output_dir =
     (if \<not> endswith (lower pdf_path) ''.pdf'' then (Inl UnsupportedFormat, [])
      else (case read_pdf e pdf_path of
              None \<Rightarrow> (Inl ReadError, [ReadFile pdf_path])
            | Some reader \<Rightarrow>
                (let fx = [ReadFile pdf_path]
                          @ (if path_exists e output_dir then [Rmtree output_dir] else [])
                          @ [Makedirs output_dir];
                     md = pdf_metadata_of reader pdf_path;
                     page_texts = extract_page_texts reader;
                     outline_entries = get_pdf_outline_entries reader;
                     chapters = pdf_chapters page_texts outline_entries
                 in (Inr \<lparr> metadata = md,
                           spine = fst chapters,
                           toc = snd chapters,
                           images = [],
                           source_file = basename pdf_path,
                           processed_at = now e,
                           version = ''3.0'' \<rparr>, fx))))"

section \<open>The entry point\<close>

definition process_book :: "env \<Rightarrow> string \<Rightarrow> string \<Rightarrow> (error + Book) \<times> effect list" where
  "process_book e input_path output_dir =
     (let ext = lower (snd (splitext input_path))
      in if ext = ''.epub'' then process_epub e input_path output_dir
         else if ext = ''.pdf'' then process_pdf e input_path output_dir
         else (Inl UnsupportedFormat, []))"

section \<open>Sample inputs\<close>

text \<open>Concrete documents and a concrete environment, on which the results below are run.\<close>

definition sample_pages :: pdf_reader where
  \<comment> \<open>A PDF of ten pages, with no outline and no document information.\<close>
  "sample_pages =
     \<lparr> pdf_metadata = None,
       pdf_pages = [Some ''one'', Some ''two'', Some ''three'', Some ''four'', Some ''five'',
                    Some ''six'', Some ''seven'', Some ''eight'', Some ''nine'', Some ''ten''],
       pdf_outline = None \<rparr>"

definition sample_outlined :: pdf_reader where
  \<comment> \<open>A PDF of four pages whose outline has three entries, the last one beyond the
      last page.\<close>
  "sample_outlined =
     \<lparr> pdf_metadata = Some (\<lambda>k. if k = ''/Title'' then Some ''Walden'' else None),
       pdf_pages = [Some ''a'', Some ''b'', None, Some ''d''],
       pdf_outline = Some [Destination (Some ''Economy'') (PageNumber 0),
                           Destination (Some ''Reading'') (PageNumber 2),
                           Destination (Some ''Index'') (PageNumber 7)] \<rparr>"

definition sample_epub :: epub_book where
  \<comment> \<open>An EPUB whose spine names a missing item first, then a content document.\<close>
  "sample_epub =
     \<lparr> dc_metadata = (\<lambda>k. if k = ''creator'' then [''H. D. Thoreau''] else []),
       book_items = [\<lparr> item_id = ''c1'', item_name = ''text/ch 1.xhtml'',
                        item_type = ITEM_DOCUMENT, item_content = ''<p>x</p>'' \<rparr>,
                     \<lparr> item_id = ''img'', item_name = ''Images/pic 1(a).JPG'',
                        item_type = ITEM_IMAGE, item_content = ''...'' \<rparr>],
       book_toc = [Link \<lparr> nav_title = ''One'', nav_href = ''text/ch 1.xhtml#s1#s2'' \<rparr>],
       book_spine = [(''cover'', ''no''), (''c1'', ''yes'')] \<rparr>"

definition sample_env :: env where
  "sample_env =
     \<lparr> read_epub = (\<lambda>p. if p = ''walden.epub'' then Some sample_epub else None),
       read_pdf = (\<lambda>p. if p = ''pages.pdf'' then Some sample_pages
                        else if p = ''walden.pdf'' then Some sample_outlined else None),
       path_exists = (\<lambda>p. False),
       can_write = (\<lambda>p. True),
       now = ''2024-01-01T00:00:00'',
       render_html = (\<lambda>image_map raw. (raw, raw)),
       str_title = (\<lambda>s. s) \<rparr>"

section \<open>Notions used in the statements\<close>

definition page_chapter :: "nat \<times> string \<Rightarrow> ChapterContent" where
  \<comment> \<open>The chapter that the page-based fallback makes of page \<open>i\<close> (counted from 0).\<close>
  "page_chapter ip =
     (case ip of (i, t) \<Rightarrow>
        pdf_chapter (''page-'' @ str_nat (i + 1)) (''Page '' @ str_nat (i + 1)) t i)"

definition toc_of_chapter :: "ChapterContent \<Rightarrow> TOCEntry" where
  \<comment> \<open>The flat entry that points at a chapter.\<close>
  "toc_of_chapter c = TOCEntry (ch_title c) (ch_href c) (ch_href c) [] []"

definition nonblank_lines :: "string \<Rightarrow> string list" where
  \<comment> \<open>The lines of a text that hold a character other than whitespace.\<close>
  "nonblank_lines txt = filter (\<lambda>line. strip line \<noteq> []) (splitlines txt)"

section \<open>Paragraph markup\<close>

lemma text_to_html_not_empty: "text_to_html t \<noteq> []"
  by (cases "filter (\<lambda>line. strip line \<noteq> []) (splitlines t)")
     (simp_all add: text_to_html_def Let_def)

lemma text_to_html_lines:
  "text_to_html t =
     (if nonblank_lines t = [] then ''<p></p>''
      else concat (map (\<lambda>line. ''<p>'' @ escape (strip line) @ ''</p>'') (nonblank_lines t)))"
  by (simp add: text_to_html_def nonblank_lines_def Let_def comp_def)

section \<open>The chapters of a PDF\<close>

lemma page_step_eq:
  "page_step acc ip = (fst acc @ [page_chapter ip], snd acc @ [toc_of_chapter (page_chapter ip)])"
  by (cases acc; cases ip)
     (simp add: page_step_def page_chapter_def toc_of_chapter_def pdf_chapter_def Let_def)

lemma page_step_foldl:
  "foldl page_step acc ys =
     (fst acc @ map page_chapter ys, snd acc @ map (\<lambda>ip. toc_of_chapter (page_chapter ip)) ys)"
proof (induction ys arbitrary: acc)
  case Nil
  show ?case by simp
next
  case (Cons y ys)
  have "foldl page_step acc (y # ys) = foldl page_step (page_step acc y) ys"
    by simp
  also have "\<dots> = (fst (page_step acc y) @ map page_chapter ys,
      snd (page_step acc y) @ map (\<lambda>ip. toc_of_chapter (page_chapter ip)) ys)"
    by (rule Cons.IH)
  finally show ?case
    using page_step_eq [of acc y] by simp
qed

lemma outline_step_mirror:
  "snd acc = map toc_of_chapter (fst acc) \<Longrightarrow>
   snd (outline_step pts starts acc y) = map toc_of_chapter (fst (outline_step pts starts acc y))"
  by (cases acc; cases y)
     (simp add: outline_step_def Let_def toc_of_chapter_def pdf_chapter_def)

lemma outline_foldl_mirror:
  "snd acc = map toc_of_chapter (fst acc) \<Longrightarrow>
   snd (foldl (outline_step pts starts) acc ys)
     = map toc_of_chapter (fst (foldl (outline_step pts starts) acc ys))"
proof (induction ys arbitrary: acc)
  case Nil
  then show ?case by simp
next
  case (Cons y ys)
  have "snd (outline_step pts starts acc y) = map toc_of_chapter (fst (outline_step pts starts acc y))"
    using Cons.prems by (rule outline_step_mirror)
  then have "snd (foldl (outline_step pts starts) (outline_step pts starts acc y) ys)
     = map toc_of_chapter (fst (foldl (outline_step pts starts) (outline_step pts starts acc y) ys))"
    by (rule Cons.IH)
  then show ?case by simp
qed

lemma pdf_chapters_mirror:
  "snd (pdf_chapters pts es) = map toc_of_chapter (fst (pdf_chapters pts es))"
  unfolding pdf_chapters_def
  by (simp add: page_step_foldl outline_foldl_mirror Let_def)

lemma pdf_chapters_no_outline:
  "fst (pdf_chapters pts []) = map page_chapter (enumerate 0 pts)"
  by (simp add: pdf_chapters_def page_step_foldl)

lemma outline_step_content:
  "list_all (\<lambda>c. ch_content c \<noteq> []) (fst acc) \<Longrightarrow>
   list_all (\<lambda>c. ch_content c \<noteq> []) (fst (outline_step pts starts acc y))"
  by (cases acc; cases y)
     (simp add: outline_step_def Let_def pdf_chapter_def text_to_html_not_empty)

lemma outline_foldl_content:
  "list_all (\<lambda>c. ch_content c \<noteq> []) (fst acc) \<Longrightarrow>
   list_all (\<lambda>c. ch_content c \<noteq> []) (fst (foldl (outline_step pts starts) acc ys))"
proof (induction ys arbitrary: acc)
  case Nil
  then show ?case by simp
next
  case (Cons y ys)
  have "list_all (\<lambda>c. ch_content c \<noteq> []) (fst (outline_step pts starts acc y))"
    using Cons.prems by (rule outline_step_content)
  then have "list_all (\<lambda>c. ch_content c \<noteq> [])
      (fst (foldl (outline_step pts starts) (outline_step pts starts acc y) ys))"
    by (rule Cons.IH)
  then show ?case by simp
qed

lemma page_chapter_content: "ch_content (page_chapter ip) \<noteq> []"
  by (cases ip) (simp add: page_chapter_def pdf_chapter_def text_to_html_not_empty)

lemma pdf_chapters_content:
  "list_all (\<lambda>c. ch_content c \<noteq> []) (fst (pdf_chapters pts es))"
proof (cases "es = []")
  case True
  then show ?thesis
    by (simp add: pdf_chapters_no_outline list_all_iff page_chapter_content)
next
  case False
  then show ?thesis
    by (simp add: pdf_chapters_def Let_def outline_foldl_content)
qed

lemma process_pdf_result:
  "endswith (lower p) ''.pdf'' \<Longrightarrow> read_pdf e p = Some reader \<Longrightarrow>
   process_pdf e p out =
     (Inr \<lparr> metadata = pdf_metadata_of reader p,
            spine = fst (pdf_chapters (extract_page_texts reader) (get_pdf_outline_entries reader)),
            toc = snd (pdf_chapters (extract_page_texts reader) (get_pdf_outline_entries reader)),
            images = [],
            source_file = basename p,
            processed_at = now e,
            version = ''3.0'' \<rparr>,
      [ReadFile p] @ (if path_exists e out then [Rmtree out] else []) @ [Makedirs out])"
  by (simp add: process_pdf_def Let_def)

lemma process_pdf_Inr:
  assumes "process_pdf e p out = (Inr book, fx)"
  shows "\<exists>reader. read_pdf e p = Some reader \<and> endswith (lower p) ''.pdf'' \<and>
     spine book = fst (pdf_chapters (extract_page_texts reader) (get_pdf_outline_entries reader)) \<and>
     toc book = snd (pdf_chapters (extract_page_texts reader) (get_pdf_outline_entries reader)) \<and>
     metadata book = pdf_metadata_of reader p"
proof (cases "endswith (lower p) ''.pdf''")
  case False
  with assms show ?thesis by (simp add: process_pdf_def)
next
  case True
  show ?thesis
  proof (cases "read_pdf e p")
    case None
    with assms True show ?thesis by (simp add: process_pdf_def)
  next
    case (Some reader)
    from assms process_pdf_result [OF True Some, of out] have
      "book = \<lparr> metadata = pdf_metadata_of reader p,
            spine = fst (pdf_chapters (extract_page_texts reader) (get_pdf_outline_entries reader)),
            toc = snd (pdf_chapters (extract_page_texts reader) (get_pdf_outline_entries reader)),
            images = [],
            source_file = basename p,
            processed_at = now e,
            version = ''3.0'' \<rparr>"
      by simp
    then show ?thesis using True Some by simp
  qed
qed

lemma no_outline_no_entries:
  "pdf_outline reader = None \<or> pdf_outline reader = Some [] \<Longrightarrow>
   get_pdf_outline_entries reader = []"
  by (auto simp: get_pdf_outline_entries_def)

lemma enumerate_nth:
  "i < length xs \<Longrightarrow> enumerate 0 xs ! i = (i, xs ! i)"
  by (simp add: nth_enumerate_eq)

lemma sample_pdf_path: "endswith (lower ''pages.pdf'') ''.pdf''"
  by code_simp

lemma sample_outlined_path: "endswith (lower ''walden.pdf'') ''.pdf''"
  by code_simp

lemma sample_pdf_read: "read_pdf sample_env ''pages.pdf'' = Some sample_pages"
  by (simp add: sample_env_def)

lemma sample_outlined_read: "read_pdf sample_env ''walden.pdf'' = Some sample_outlined"
  by (simp add: sample_env_def)

lemma sample_pdf_returns:
  "process_pdf sample_env ''pages.pdf'' out
     = (Inr (projr (fst (process_pdf sample_env ''pages.pdf'' out))),
        snd (process_pdf sample_env ''pages.pdf'' out))"
  by (simp add: process_pdf_result [OF sample_pdf_path sample_pdf_read])

lemma sample_outlined_returns:
  "process_pdf sample_env ''walden.pdf'' out
     = (Inr (projr (fst (process_pdf sample_env ''walden.pdf'' out))),
        snd (process_pdf sample_env ''walden.pdf'' out))"
  by (simp add: process_pdf_result [OF sample_outlined_path sample_outlined_read])

text \<open>
  Claim C10. \<open>text_to_html\<close> never returns empty markup: a text with no line that holds
  a character other than whitespace gives exactly \<open><p></p>\<close>, any other text gives one
  \<open><p>...</p>\<close> element per such line, in order, the line stripped and HTML-escaped;
  hence the content of every chapter made from a PDF is not empty.
\<close>

theorem text_to_html_paragraphs:
  "text_to_html t \<noteq> []
   \<and> (nonblank_lines t = [] \<longrightarrow> text_to_html t = ''<p></p>'')
   \<and> (nonblank_lines t \<noteq> [] \<longrightarrow>
        text_to_html t
          = concat (map (\<lambda>line. ''<p>'' @ escape (strip line) @ ''</p>'') (nonblank_lines t)))
   \<and> (process_pdf e p out = (Inr book, fx) \<longrightarrow>
        list_all (\<lambda>c. ch_content c \<noteq> []) (spine book))"
proof -
  have "process_pdf e p out = (Inr book, fx) \<Longrightarrow>
        list_all (\<lambda>c. ch_content c \<noteq> []) (spine book)"
  proof -
    assume "process_pdf e p out = (Inr book, fx)"
    from process_pdf_Inr [OF this] obtain reader where
      "spine book = fst (pdf_chapters (extract_page_texts reader) (get_pdf_outline_entries reader))"
      by blast
    then show ?thesis by (simp add: pdf_chapters_content)
  qed
  then show ?thesis
    using text_to_html_lines [of t] text_to_html_not_empty [of t] by simp
qed

theorem text_to_html_paragraphs_witness:
  "text_to_html [CHR 0x20, CHR 0x0A, CHR 0x09] = ''<p></p>''
   \<and> text_to_html '' a < b \<newline>\<newline>c'' = ''<p>a &lt; b</p><p>c</p>''
   \<and> list_all (\<lambda>c. ch_content c \<noteq> [])
        (spine (projr (fst (process_pdf sample_env ''walden.pdf'' ''out''))))"
proof -
  let ?r = "process_pdf sample_env ''walden.pdf'' ''out''"
  have r: "?r = (Inr (projr (fst ?r)), snd ?r)"
    by (rule sample_outlined_returns)
  have b: "nonblank_lines [CHR 0x20, CHR 0x0A, CHR 0x09] = []"
    by code_simp
  have l: "nonblank_lines '' a < b \<newline>\<newline>c'' = ['' a < b '', ''c'']"
    by code_simp
  have e1: "escape (strip '' a < b '') = ''a &lt; b''"
    by code_simp
  have e2: "escape (strip ''c'') = ''c''"
    by code_simp
  from text_to_html_paragraphs
         [of "[CHR 0x20, CHR 0x0A, CHR 0x09]" sample_env "''walden.pdf''" "''out''"
             "projr (fst ?r)" "snd ?r"]
       text_to_html_paragraphs [of "'' a < b \<newline>\<newline>c''"] r b l e1 e2
  show ?thesis by simp
qed

text \<open>
  Claim C9. In every book made from a PDF, with or without an outline, the table of
  contents is as long as the spine, and entry \<open>k\<close> has the href, the file href and the
  title of chapter \<open>k\<close>, an empty anchor and no children.
\<close>

theorem pdf_toc_mirrors_spine:
  assumes "process_pdf e p out = (Inr book, fx)"
  shows "length (toc book) = length (spine book)
     \<and> (\<forall>k < length (toc book).
           toc_href (toc book ! k) = file_href (toc book ! k)
         \<and> file_href (toc book ! k) = ch_href (spine book ! k)
         \<and> toc_title (toc book ! k) = ch_title (spine book ! k)
         \<and> anchor (toc book ! k) = []
         \<and> children (toc book ! k) = [])"
proof -
  from process_pdf_Inr [OF assms] obtain reader where
    "spine book = fst (pdf_chapters (extract_page_texts reader) (get_pdf_outline_entries reader))"
    "toc book = snd (pdf_chapters (extract_page_texts reader) (get_pdf_outline_entries reader))"
    by blast
  then have "toc book = map toc_of_chapter (spine book)"
    by (simp add: pdf_chapters_mirror)
  then show ?thesis
    by (simp add: toc_of_chapter_def)
qed

theorem pdf_toc_mirrors_spine_witness:
  "length (toc (projr (fst (process_pdf sample_env ''walden.pdf'' ''out''))))
     = length (spine (projr (fst (process_pdf sample_env ''walden.pdf'' ''out''))))
   \<and> toc (projr (fst (process_pdf sample_env ''walden.pdf'' ''out'')))
     = [TOCEntry ''Economy'' ''chapter-1'' ''chapter-1'' [] [],
        TOCEntry ''Reading'' ''chapter-2'' ''chapter-2'' [] []]"
proof -
  have "toc (projr (fst (process_pdf sample_env ''walden.pdf'' ''out'')))
     = [TOCEntry ''Economy'' ''chapter-1'' ''chapter-1'' [] [],
        TOCEntry ''Reading'' ''chapter-2'' ''chapter-2'' [] []]"
    by code_simp
  then show ?thesis
    using pdf_toc_mirrors_spine [OF sample_outlined_returns [of "''out''"]] by simp
qed

text \<open>
  Claim C5. A PDF with no outline and \<open>N\<close> pages gives a book whose spine has exactly
  \<open>N\<close> chapters; chapter \<open>i\<close> (from 0) has the title \<open>Page i+1\<close>, the href \<open>page-i+1\<close> and
  the order \<open>i\<close>.
\<close>

theorem pdf_without_outline_one_chapter_per_page:
  assumes "endswith (lower p) ''.pdf''"
    and "read_pdf e p = Some reader"
    and "pdf_outline reader = None \<or> pdf_outline reader = Some []"
  shows "\<exists>book fx. process_pdf e p out = (Inr book, fx)
     \<and> length (spine book) = length (pdf_pages reader)
     \<and> (\<forall>i < length (pdf_pages reader).
           ch_title (spine book ! i) = ''Page '' @ str_nat (i + 1)
         \<and> ch_href (spine book ! i) = ''page-'' @ str_nat (i + 1)
         \<and> ch_order (spine book ! i) = i)"
proof -
  let ?pts = "extract_page_texts reader"
  let ?book = "\<lparr> metadata = pdf_metadata_of reader p,
            spine = fst (pdf_chapters ?pts (get_pdf_outline_entries reader)),
            toc = snd (pdf_chapters ?pts (get_pdf_outline_entries reader)),
            images = [],
            source_file = basename p,
            processed_at = now e,
            version = ''3.0'' \<rparr>"
  have n: "length ?pts = length (pdf_pages reader)"
    by (simp add: extract_page_texts_def)
  have sp: "spine ?book = map page_chapter (enumerate 0 ?pts)"
    using no_outline_no_entries [OF assms(3)] by (simp add: pdf_chapters_no_outline)
  have len: "length (spine ?book) = length (pdf_pages reader)"
    unfolding sp by (simp add: length_enumerate n)
  have each: "ch_title (spine ?book ! i) = ''Page '' @ str_nat (i + 1)
         \<and> ch_href (spine ?book ! i) = ''page-'' @ str_nat (i + 1)
         \<and> ch_order (spine ?book ! i) = i" if "i < length (pdf_pages reader)" for i
  proof -
    from that n have i: "i < length ?pts" by simp
    then have "spine ?book ! i = page_chapter (i, ?pts ! i)"
      unfolding sp by (simp add: length_enumerate enumerate_nth)
    then show ?thesis
      by (simp add: page_chapter_def pdf_chapter_def)
  qed
  from process_pdf_result [OF assms(1) assms(2), of out] len each
  show ?thesis by blast
qed

theorem pdf_without_outline_one_chapter_per_page_witness:
  "\<exists>book fx. process_pdf sample_env ''pages.pdf'' ''out'' = (Inr book, fx)
     \<and> length (spine book) = 10
     \<and> ch_title (spine book ! 0) = ''Page 1'' \<and> ch_href (spine book ! 0) = ''page-1''
     \<and> ch_order (spine book ! 0) = 0
     \<and> ch_title (spine book ! 9) = ''Page 10'' \<and> ch_href (spine book ! 9) = ''page-10''
     \<and> ch_order (spine book ! 9) = 9"
proof -
  have o: "pdf_outline sample_pages = None \<or> pdf_outline sample_pages = Some []"
    by (simp add: sample_pages_def)
  have n: "length (pdf_pages sample_pages) = 10"
    by (simp add: sample_pages_def)
  have s1: "str_nat (0 + 1) = ''1''"
    by code_simp
  have s10: "str_nat (9 + 1) = ''10''"
    by code_simp
  from pdf_without_outline_one_chapter_per_page [OF sample_pdf_path sample_pdf_read o, of "''out''"]
  obtain book fx where b: "process_pdf sample_env ''pages.pdf'' ''out'' = (Inr book, fx)"
    and l: "length (spine book) = length (pdf_pages sample_pages)"
    and a: "\<forall>i < length (pdf_pages sample_pages).
           ch_title (spine book ! i) = ''Page '' @ str_nat (i + 1)
         \<and> ch_href (spine book ! i) = ''page-'' @ str_nat (i + 1)
         \<and> ch_order (spine book ! i) = i"
    by blast
  from a n have "ch_title (spine book ! 0) = ''Page '' @ str_nat (0 + 1)
         \<and> ch_href (spine book ! 0) = ''page-'' @ str_nat (0 + 1)
         \<and> ch_order (spine book ! 0) = 0"
    by (metis zero_less_numeral)
  moreover from a n have "ch_title (spine book ! 9) = ''Page '' @ str_nat (9 + 1)
         \<and> ch_href (spine book ! 9) = ''page-'' @ str_nat (9 + 1)
         \<and> ch_order (spine book ! 9) = 9"
    by simp
  ultimately show ?thesis
    using b l n s1 s10 by (intro exI [of _ book] exI [of _ fx]) simp
qed

text \<open>
  Claim C8. A path whose extension, in lower case, is neither \<open>.epub\<close> nor \<open>.pdf\<close> ends
  \<open>process_book\<close> with the unsupported-format error and with no effect at all: nothing
  is read, no directory is removed or made, no file is written.
\<close>

theorem unsupported_extension_fails_first:
  assumes "lower (snd (splitext p)) \<noteq> ''.epub''"
    and "lower (snd (splitext p)) \<noteq> ''.pdf''"
  shows "process_book e p out = (Inl UnsupportedFormat, [])"
  using assms by (simp add: process_book_def Let_def)

theorem unsupported_extension_fails_first_witness:
  "lower (snd (splitext ''notes/walden.EPUB.txt'')) = ''.txt''
   \<and> process_book sample_env ''notes/walden.EPUB.txt'' ''out'' = (Inl UnsupportedFormat, [])"
proof -
  have x: "lower (snd (splitext ''notes/walden.EPUB.txt'')) = ''.txt''"
    by code_simp
  then show ?thesis
    using unsupported_extension_fails_first [of "''notes/walden.EPUB.txt''" sample_env "''out''"]
    by simp
qed

section \<open>Asset file names\<close>

definition is_safe_char :: "char \<Rightarrow> bool" where
  \<comment> \<open>Alphanumeric, or one of the dot, the underscore and the hyphen.\<close>
  "is_safe_char c = (isalnum c \<or> c \<in> set ''._-'')"

definition image_file :: "epub_item \<Rightarrow> string" where
  \<comment> \<open>The sanitized file name of an image item.\<close>
  "image_file item = safe_name (basename (item_name item))"

definition is_image_of :: "epub_book \<Rightarrow> epub_item \<Rightarrow> bool" where
  "is_image_of book item = (item \<in> set (book_items book) \<and> item_type item = ITEM_IMAGE)"

lemma kept_not_space:
  "isalpha c \<or> isdigit c \<or> c \<in> set ''._-'' \<Longrightarrow> \<not> isspace c"
  by (auto simp: isalpha_def isdigit_def isspace_def code_point_def Let_def)

lemma kept_not_slash:
  "isalpha c \<or> isdigit c \<or> c \<in> set ''._-'' \<Longrightarrow> c \<noteq> CHR ''/''"
  by (auto simp: isalpha_def isdigit_def code_point_def Let_def)

lemma kept_safe:
  "isalpha c \<or> isdigit c \<or> c \<in> set ''._-'' \<Longrightarrow> is_safe_char c"
  by (auto simp: is_safe_char_def isalnum_def)

lemma dropWhile_none: "\<forall>c \<in> set s. \<not> P c \<Longrightarrow> dropWhile P s = s"
  by (cases s) simp_all

lemma strip_no_space: "\<forall>c \<in> set s. \<not> isspace c \<Longrightarrow> strip s = s"
  by (simp add: strip_def lstrip_def rstrip_def dropWhile_none)

lemma safe_name_filter:
  "safe_name n = filter (\<lambda>c. isalpha c \<or> isdigit c \<or> c \<in> set ''._-'') n"
  unfolding safe_name_def
  by (rule strip_no_space) (use kept_not_space in auto)

lemma safe_name_chars: "list_all is_safe_char (safe_name n)"
  unfolding safe_name_filter list_all_iff
  using kept_safe by auto

lemma safe_name_no_slash: "CHR ''/'' \<notin> set (safe_name n)"
  unfolding safe_name_filter
  using kept_not_slash by auto

lemma basename_plain: "CHR ''/'' \<notin> set f \<Longrightarrow> basename f = f"
proof -
  assume f: "CHR ''/'' \<notin> set f"
  have "takeWhile (\<lambda>c. c \<noteq> CHR ''/'') (rev f) = rev f"
    by (rule takeWhile_eq_all_conv [THEN iffD2]) (use f in auto)
  then show ?thesis
    unfolding basename_def by (simp only: rev_rev_ident)
qed

lemma basename_append_slash:
  "CHR ''/'' \<notin> set f \<Longrightarrow> basename (d @ ''/'' @ f) = f"
proof -
  assume f: "CHR ''/'' \<notin> set f"
  have "takeWhile (\<lambda>c. c \<noteq> CHR ''/'') (rev f @ CHR ''/'' # rev d)
          = rev f @ takeWhile (\<lambda>c. c \<noteq> CHR ''/'') (CHR ''/'' # rev d)"
    by (rule takeWhile_append2) (use f in auto)
  then show ?thesis
    by (simp add: basename_def)
qed

lemma basename_after_slash:
  assumes "CHR ''/'' \<notin> set f" and "d \<noteq> []" and "last d = CHR ''/''"
  shows "basename (d @ f) = f"
proof -
  from assms(2,3) obtain d' where d: "d = d' @ ''/''"
    by (metis append_butlast_last_id)
  show ?thesis
    unfolding d using basename_append_slash [OF assms(1), of d'] by simp
qed

lemma basename_path_join:
  assumes "CHR ''/'' \<notin> set f"
  shows "basename (path_join d f) = f"
proof -
  from assms have nohd: "\<not> (f \<noteq> [] \<and> hd f = CHR ''/'')"
    by (cases f) auto
  show ?thesis
  proof (cases "d = []")
    case True
    with nohd show ?thesis
      by (simp add: path_join_def basename_plain [OF assms])
  next
    case False
    show ?thesis
    proof (cases "last d = CHR ''/''")
      case True
      from nohd False True have "path_join d f = d @ f"
        by (simp add: path_join_def)
      then show ?thesis
        using basename_after_slash [OF assms False True] by simp
    next
      case n: False
      from nohd False n have "path_join d f = d @ ''/'' @ f"
        by (simp add: path_join_def)
      then show ?thesis
        using basename_append_slash [OF assms, of d] by simp
    qed
  qed
qed

lemma image_file_base: "basename (path_join d (image_file item)) = image_file item"
  by (simp add: basename_path_join image_file_def safe_name_no_slash)

lemma image_rel_base: "basename (''images/'' @ image_file item) = image_file item"
  using basename_append_slash [of "image_file item" "''images''"]
  by (simp add: image_file_def safe_name_no_slash)

lemma dict_set_values: "snd ` set (dict_set d k v) \<subseteq> insert v (snd ` set d)"
  by (induction d k v rule: dict_set.induct) auto

lemma extract_images_invariant:
  assumes "set items \<subseteq> set all"
    and "\<forall>q. WriteFile q \<in> set fx \<longrightarrow>
           (\<exists>item \<in> set all. item_type item = ITEM_IMAGE \<and> q = path_join dir (image_file item))"
    and "\<forall>v \<in> snd ` set m.
           (\<exists>item \<in> set all. item_type item = ITEM_IMAGE \<and> v = ''images/'' @ image_file item)"
    and "extract_images e dir items m fx = (r, fx')"
  shows "(\<forall>q. WriteFile q \<in> set fx' \<longrightarrow>
           (\<exists>item \<in> set all. item_type item = ITEM_IMAGE \<and> q = path_join dir (image_file item)))
       \<and> (\<forall>m'. r = Inr m' \<longrightarrow> (\<forall>v \<in> snd ` set m'.
           (\<exists>item \<in> set all. item_type item = ITEM_IMAGE \<and> v = ''images/'' @ image_file item)))"
  using assms
proof (induction items arbitrary: m fx)
  case Nil
  then show ?case by auto
next
  case (Cons item items)
  show ?case
  proof (cases "item_type item = ITEM_IMAGE")
    case False
    with Cons.prems(4) have "extract_images e dir items m fx = (r, fx')"
      by simp
    with Cons.IH [of fx m] Cons.prems show ?thesis
      by simp
  next
    case True
    let ?q = "path_join dir (image_file item)"
    let ?v = "''images/'' @ image_file item"
    show ?thesis
    proof (cases "can_write e ?q")
      case False
      with True Cons.prems(4) have "r = Inl WriteError" "fx' = fx"
        by (auto simp: Let_def image_file_def)
      with Cons.prems(2) show ?thesis
        by simp
    next
      case w: True
      let ?m = "dict_set (dict_set m (item_name item) ?v) (basename (item_name item)) ?v"
      from True w Cons.prems(4)
      have run: "extract_images e dir items ?m (fx @ [WriteFile ?q]) = (r, fx')"
        by (simp add: Let_def image_file_def)
      have item: "item \<in> set all"
        using Cons.prems(1) by simp
      have fx: "\<forall>q. WriteFile q \<in> set (fx @ [WriteFile ?q]) \<longrightarrow>
           (\<exists>item \<in> set all. item_type item = ITEM_IMAGE \<and> q = path_join dir (image_file item))"
        using Cons.prems(2) item True by auto
      have "snd ` set ?m \<subseteq> insert ?v (snd ` set m)"
        using dict_set_values [of "dict_set m (item_name item) ?v" "basename (item_name item)" ?v]
              dict_set_values [of m "item_name item" ?v]
        by blast
      then have m: "\<forall>v \<in> snd ` set ?m.
           (\<exists>item \<in> set all. item_type item = ITEM_IMAGE \<and> v = ''images/'' @ image_file item)"
        using Cons.prems(3) item True by blast
      from Cons.prems(1) have "set items \<subseteq> set all"
        by simp
      from Cons.IH [OF this fx m run] show ?thesis .
    qed
  qed
qed

lemma process_epub_cases:
  assumes "process_epub e p out = (r, fx)"
  shows "(r = Inl UnsupportedFormat \<and> fx = [])
       \<or> (r = Inl ReadError \<and> fx = [ReadFile p])
       \<or> (\<exists>book m. read_epub e p = Some book \<and> endswith (lower p) ''.epub''
            \<and> extract_images e (path_join out ''images'') (book_items book) []
                 ([ReadFile p] @ (if path_exists e out then [Rmtree out] else [])
                    @ [Makedirs (path_join out ''images'')]) = (m, fx)
            \<and> (case m of
                  Inl err \<Rightarrow> r = Inl err
                | Inr image_map \<Rightarrow>
                    r = Inr \<lparr> metadata = extract_metadata_robust book,
                              spine = foldl (chapter_step e book image_map) []
                                        (enumerate 0 (book_spine book)),
                              toc = (if parse_toc_recursive (book_toc book) 0 = []
                                     then get_fallback_toc e book
                                     else parse_toc_recursive (book_toc book) 0),
                              images = image_map,
                              source_file = basename p,
                              processed_at = now e,
                              version = ''3.0'' \<rparr>))"
proof (cases "endswith (lower p) ''.epub''")
  case False
  with assms show ?thesis by (simp add: process_epub_def)
next
  case True
  show ?thesis
  proof (cases "read_epub e p")
    case None
    with assms True show ?thesis by (simp add: process_epub_def)
  next
    case (Some book)
    obtain m fx0 where x: "extract_images e (path_join out ''images'') (book_items book) []
                 ([ReadFile p] @ (if path_exists e out then [Rmtree out] else [])
                    @ [Makedirs (path_join out ''images'')]) = (m, fx0)"
      by (cases "extract_images e (path_join out ''images'') (book_items book) []
                 ([ReadFile p] @ (if path_exists e out then [Rmtree out] else [])
                    @ [Makedirs (path_join out ''images'')])") blast
    show ?thesis
    proof (cases m)
      case (Inl err)
      with assms True Some x show ?thesis
        by (simp add: process_epub_def Let_def)
    next
      case (Inr image_map)
      with assms True Some x show ?thesis
        by (simp add: process_epub_def Let_def)
    qed
  qed
qed

text \<open>
  Claim C7. The sanitized file name of an image holds only alphanumeric characters and
  the characters dot, underscore and hyphen: it is the source base name with every
  other character left out. This is the base name of every file the asset extractor
  writes, and the file name in every value of the asset map, which is that name under
  \<open>images/\<close>.
\<close>

theorem asset_names_sanitized:
  "list_all is_safe_char (safe_name n)
   \<and> safe_name n = filter (\<lambda>c. isalpha c \<or> isdigit c \<or> c \<in> set ''._-'') n
   \<and> (process_epub e p out = (r, fx) \<longrightarrow>
        (\<forall>q. WriteFile q \<in> set fx \<longrightarrow>
           list_all is_safe_char (basename q)
           \<and> (\<exists>book item. read_epub e p = Some book \<and> is_image_of book item
                 \<and> basename q = safe_name (basename (item_name item))))
      \<and> (\<forall>b v. r = Inr b \<longrightarrow> v \<in> snd ` set (images b) \<longrightarrow>
           list_all is_safe_char (basename v) \<and> v = ''images/'' @ basename v
           \<and> (\<exists>book item. read_epub e p = Some book \<and> is_image_of book item
                 \<and> basename v = safe_name (basename (item_name item)))))"
proof -
  have run: "(\<forall>q. WriteFile q \<in> set fx \<longrightarrow>
           list_all is_safe_char (basename q)
           \<and> (\<exists>book item. read_epub e p = Some book \<and> is_image_of book item
                 \<and> basename q = safe_name (basename (item_name item))))
      \<and> (\<forall>b v. r = Inr b \<longrightarrow> v \<in> snd ` set (images b) \<longrightarrow>
           list_all is_safe_char (basename v) \<and> v = ''images/'' @ basename v
           \<and> (\<exists>book item. read_epub e p = Some book \<and> is_image_of book item
                 \<and> basename v = safe_name (basename (item_name item))))"
    if pe: "process_epub e p out = (r, fx)"
  proof -
    from process_epub_cases [OF pe] consider
        (early) "(\<exists>err. r = Inl err) \<and> (fx = [] \<or> fx = [ReadFile p])"
      | (loaded) book m where "read_epub e p = Some book"
          "extract_images e (path_join out ''images'') (book_items book) []
                 ([ReadFile p] @ (if path_exists e out then [Rmtree out] else [])
                    @ [Makedirs (path_join out ''images'')]) = (m, fx)"
          "\<forall>b. r = Inr b \<longrightarrow> m = Inr (images b)"
      by (fastforce split: sum.splits)
    then show ?thesis
    proof cases
      case early
      then show ?thesis by auto
    next
      case loaded
      let ?dir = "path_join out ''images''"
      have inv: "(\<forall>q. WriteFile q \<in> set fx \<longrightarrow>
           (\<exists>item \<in> set (book_items book). item_type item = ITEM_IMAGE
              \<and> q = path_join ?dir (image_file item)))
       \<and> (\<forall>m'. m = Inr m' \<longrightarrow> (\<forall>v \<in> snd ` set m'.
           (\<exists>item \<in> set (book_items book). item_type item = ITEM_IMAGE
              \<and> v = ''images/'' @ image_file item)))"
        by (rule extract_images_invariant [OF _ _ _ loaded(2)]) auto
      have files: "list_all is_safe_char (basename q)
           \<and> (\<exists>book item. read_epub e p = Some book \<and> is_image_of book item
                 \<and> basename q = safe_name (basename (item_name item)))"
        if "WriteFile q \<in> set fx" for q
      proof -
        from inv that obtain item where i: "item \<in> set (book_items book)"
          "item_type item = ITEM_IMAGE" "q = path_join ?dir (image_file item)"
          by blast
        have "basename q = image_file item"
          unfolding i(3) by (rule image_file_base)
        with i loaded(1) show ?thesis
          using safe_name_chars [of "basename (item_name item)"]
          by (auto simp: image_file_def is_image_of_def)
      qed
      have vals: "list_all is_safe_char (basename v) \<and> v = ''images/'' @ basename v
           \<and> (\<exists>book item. read_epub e p = Some book \<and> is_image_of book item
                 \<and> basename v = safe_name (basename (item_name item)))"
        if "r = Inr b" "v \<in> snd ` set (images b)" for b v
      proof -
        from that loaded(3) have "m = Inr (images b)"
          by simp
        with inv that(2) obtain item where i: "item \<in> set (book_items book)"
          "item_type item = ITEM_IMAGE" "v = ''images/'' @ image_file item"
          by blast
        have "basename v = image_file item"
          unfolding i(3) by (rule image_rel_base)
        with i loaded(1) show ?thesis
          using safe_name_chars [of "basename (item_name item)"]
          by (auto simp: image_file_def is_image_of_def)
      qed
      from files vals show ?thesis by blast
    qed
  qed
  show ?thesis
    using safe_name_chars [of n] safe_name_filter [of n] run by blast
qed

theorem asset_names_sanitized_witness:
  "safe_name ''pic 1(a).JPG'' = ''pic1a.JPG''
   \<and> list_all is_safe_char (safe_name ''pic 1(a).JPG'')
   \<and> WriteFile ''out/images/pic1a.JPG'' \<in> set (snd (process_epub sample_env ''walden.epub'' ''out''))
   \<and> list_all is_safe_char (basename ''out/images/pic1a.JPG'')"
proof -
  let ?r = "process_epub sample_env ''walden.epub'' ''out''"
  have r: "?r = (fst ?r, snd ?r)"
    by simp
  have w: "WriteFile ''out/images/pic1a.JPG'' \<in> set (snd ?r)"
    by code_simp
  have s: "safe_name ''pic 1(a).JPG'' = ''pic1a.JPG''"
    by code_simp
  from asset_names_sanitized
         [of "''pic 1(a).JPG''" sample_env "''walden.epub''" "''out''" "fst ?r" "snd ?r"] r w s
  show ?thesis by blast
qed

section \<open>Titles\<close>

lemma sample_epub_path: "endswith (lower ''walden.epub'') ''.epub''"
  by code_simp

lemma sample_epub_read: "read_epub sample_env ''walden.epub'' = Some sample_epub"
  by (simp add: sample_env_def)

lemma title_absent_epub:
  "dc_metadata b ''title'' = [] \<Longrightarrow> title (extract_metadata_robust b) = ''Untitled''"
  by (simp add: extract_metadata_robust_def get_one_def or_else_def)

lemma title_absent_pdf:
  "pdf_metadata r = None \<or> (\<exists>m. pdf_metadata r = Some m \<and> m ''/Title'' = None) \<Longrightarrow>
   title (pdf_metadata_of r p) = fst (splitext (basename p))"
  by (auto simp: pdf_metadata_of_def or_else_def Let_def)

lemma process_epub_Inr:
  assumes "process_epub e p out = (Inr book, fx)"
  shows "\<exists>b image_map. read_epub e p = Some b \<and> endswith (lower p) ''.epub''
     \<and> metadata book = extract_metadata_robust b
     \<and> spine book = foldl (chapter_step e b image_map) []
                       (enumerate 0 (book_spine b))
     \<and> toc book = (if parse_toc_recursive (book_toc b) 0 = [] then get_fallback_toc e b
                   else parse_toc_recursive (book_toc b) 0)
     \<and> images book = image_map"
proof (cases "endswith (lower p) ''.epub''")
  case False
  with assms show ?thesis by (simp add: process_epub_def)
next
  case True
  show ?thesis
  proof (cases "read_epub e p")
    case None
    with assms True show ?thesis by (simp add: process_epub_def)
  next
    case (Some b)
    obtain m fx0 where x: "extract_images e (path_join out ''images'') (book_items b) []
                 ([ReadFile p] @ (if path_exists e out then [Rmtree out] else [])
                    @ [Makedirs (path_join out ''images'')]) = (m, fx0)"
      by (cases "extract_images e (path_join out ''images'') (book_items b) []
                 ([ReadFile p] @ (if path_exists e out then [Rmtree out] else [])
                    @ [Makedirs (path_join out ''images'')])") blast
    show ?thesis
    proof (cases m)
      case (Inl err)
      with assms True Some x show ?thesis
        by (simp add: process_epub_def Let_def)
    next
      case (Inr image_map)
      with assms True Some x have "book = \<lparr> metadata = extract_metadata_robust b,
                              spine = foldl (chapter_step e b image_map) []
                                        (enumerate 0 (book_spine b)),
                              toc = (if parse_toc_recursive (book_toc b) 0 = []
                                     then get_fallback_toc e b
                                     else parse_toc_recursive (book_toc b) 0),
                              images = image_map,
                              source_file = basename p,
                              processed_at = now e,
                              version = ''3.0'' \<rparr>"
        by (simp add: process_epub_def Let_def)
      then show ?thesis using True Some by simp
    qed
  qed
qed

lemma process_epub_metadata:
  assumes "process_epub e p out = (Inr book, fx)" and "read_epub e p = Some b"
  shows "metadata book = extract_metadata_robust b"
  using process_epub_Inr [OF assms(1)] assms(2) by auto

text \<open>
  Claim C2, as the code has it. An EPUB whose metadata gives no title gets the title
  \<open>Untitled\<close>. A PDF whose document information gives no \<open>/Title\<close> gets the base name
  of the input file without its extension, not \<open>Untitled\<close>. Neither case is an error.
\<close>

theorem absent_title_defaults:
  "(dc_metadata b ''title'' = [] \<longrightarrow> title (extract_metadata_robust b) = ''Untitled'')
   \<and> (process_epub e p out = (Inr book, fx) \<and> read_epub e p = Some b
        \<and> dc_metadata b ''title'' = [] \<longrightarrow> title (metadata book) = ''Untitled'')
   \<and> (endswith (lower q) ''.pdf'' \<and> read_pdf e q = Some r
        \<and> (pdf_metadata r = None \<or> (\<exists>m. pdf_metadata r = Some m \<and> m ''/Title'' = None))
       \<longrightarrow> (\<exists>book' fx'. process_pdf e q out = (Inr book', fx')
              \<and> title (metadata book') = fst (splitext (basename q))))"
proof -
  have "title (metadata book) = ''Untitled''"
    if "process_epub e p out = (Inr book, fx)" "read_epub e p = Some b"
       "dc_metadata b ''title'' = []"
    using process_epub_metadata [OF that(1) that(2)] title_absent_epub [OF that(3)] by simp
  moreover have "\<exists>book' fx'. process_pdf e q out = (Inr book', fx')
              \<and> title (metadata book') = fst (splitext (basename q))"
    if "endswith (lower q) ''.pdf''" "read_pdf e q = Some r"
       "pdf_metadata r = None \<or> (\<exists>m. pdf_metadata r = Some m \<and> m ''/Title'' = None)"
    using process_pdf_result [OF that(1) that(2), of out] title_absent_pdf [OF that(3), of q]
    by simp
  ultimately show ?thesis
    using title_absent_epub [of b] by blast
qed

theorem absent_title_defaults_witness:
  "dc_metadata sample_epub ''title'' = []
   \<and> title (extract_metadata_robust sample_epub) = ''Untitled''
   \<and> title (metadata (projr (fst (process_epub sample_env ''walden.epub'' ''out'')))) = ''Untitled''
   \<and> pdf_metadata sample_pages = None
   \<and> (\<exists>book' fx'. process_pdf sample_env ''pages.pdf'' ''out'' = (Inr book', fx')
         \<and> title (metadata book') = ''pages'')"
proof -
  let ?r = "process_epub sample_env ''walden.epub'' ''out''"
  have t: "dc_metadata sample_epub ''title'' = []"
    by (simp add: sample_epub_def)
  have m: "pdf_metadata sample_pages = None"
    by (simp add: sample_pages_def)
  have r: "?r = (Inr (projr (fst ?r)), snd ?r)"
    by code_simp
  have s: "fst (splitext (basename ''pages.pdf'')) = ''pages''"
    by code_simp
  from absent_title_defaults
         [of sample_epub sample_env "''walden.epub''" "''out''" "projr (fst ?r)" "snd ?r"
             "''pages.pdf''" sample_pages]
       t m r s sample_epub_read sample_pdf_path sample_pdf_read
  show ?thesis by simp
qed

theorem pdf_title_counterexample:
  "pdf_metadata sample_pages = None
   \<and> \<not> isl (fst (process_book sample_env ''pages.pdf'' ''out''))
   \<and> title (metadata (projr (fst (process_book sample_env ''pages.pdf'' ''out'')))) = ''pages''
   \<and> ''pages'' \<noteq> ''Untitled''"
  by code_simp

section \<open>Hyphenation\<close>

text \<open>
  Claim C6. The normalizer joins the word of the specification's example, but not
  every word that is split by line-break hyphenation: a break whose first letter is
  the closing letter of the break before it is left as it is, since the matches of the
  substitution do not overlap. In \<open>re-\<close>, \<open>a-\<close>, \<open>lign\<close> on three lines the second
  hyphen stays and the line break becomes a space.
\<close>

theorem hyphen_merge_misses_adjacent_break:
  "normalize_pdf_text ''The cold cli-\<newline>mate was harsh.'' = ''The cold climate was harsh.''
   \<and> normalize_pdf_text ''re-\<newline>a-\<newline>lign'' = ''rea- lign''"
  by code_simp

section \<open>Hrefs and anchors\<close>

definition before_hash :: "string \<Rightarrow> string" where
  \<comment> \<open>The part of a string before its first hash sign.\<close>
  "before_hash h = takeWhile (\<lambda>c. c \<noteq> CHR ''#'') h"

definition after_hash :: "string \<Rightarrow> string" where
  \<comment> \<open>All that follows the first hash sign of a string; empty when there is none.\<close>
  "after_hash h = drop 1 (dropWhile (\<lambda>c. c \<noteq> CHR ''#'') h)"

fun entries_of :: "TOCEntry \<Rightarrow> TOCEntry list" where
  \<comment> \<open>An entry and all the entries below it.\<close>
  "entries_of (TOCEntry t h f a cs) = TOCEntry t h f a cs # concat (map entries_of cs)"

definition all_entries :: "TOCEntry list \<Rightarrow> TOCEntry list" where
  "all_entries es = concat (map entries_of es)"

fun nodes_of :: "toc_item list \<Rightarrow> nav_node list" where
  \<comment> \<open>The navigation nodes of a source structure, in the order they are read.\<close>
  "nodes_of [] = []"
| "nodes_of (Pair n cs # items) = n # nodes_of cs @ nodes_of items"
| "nodes_of (Link n # items) = n # nodes_of items"
| "nodes_of (Section n # items) = n # nodes_of items"
| "nodes_of (Other # items) = nodes_of items"

lemma takeWhile_all: "\<forall>x \<in> set xs. P x \<Longrightarrow> takeWhile P xs = xs"
  by simp

lemma dropWhile_all: "\<forall>x \<in> set xs. P x \<Longrightarrow> dropWhile P xs = []"
  by simp

lemma split_on_unfold:
  "split_on sep s =
     takeWhile (\<lambda>c. c \<noteq> sep) s #
       (case dropWhile (\<lambda>c. c \<noteq> sep) s of [] \<Rightarrow> [] | _ # r \<Rightarrow> split_on sep r)"
proof (induction s)
  case Nil
  show ?case by simp
next
  case (Cons c s)
  show ?case
  proof (cases "c = sep")
    case True
    then show ?thesis by simp
  next
    case False
    then show ?thesis
      by (subst split_on.simps, subst Cons.IH) simp
  qed
qed

lemma split_on_hd: "hd (split_on sep s) = takeWhile (\<lambda>c. c \<noteq> sep) s"
  by (subst split_on_unfold) simp

lemma split_on_not_empty: "split_on sep s \<noteq> []"
  by (subst split_on_unfold) simp

lemma dropWhile_member:
  "sep \<in> set s \<Longrightarrow> \<exists>r. dropWhile (\<lambda>c. c \<noteq> sep) s = sep # r"
proof -
  assume "sep \<in> set s"
  then have "dropWhile (\<lambda>c. c \<noteq> sep) s \<noteq> []"
    by (simp add: dropWhile_eq_Nil_conv)
  then obtain x r where xr: "dropWhile (\<lambda>c. c \<noteq> sep) s = x # r"
    by (cases "dropWhile (\<lambda>c. c \<noteq> sep) s") auto
  then have "\<not> (x \<noteq> sep)"
    using hd_dropWhile [of "\<lambda>c. c \<noteq> sep" s] by auto
  with xr show ?thesis by simp
qed

lemma split_on_second:
  assumes "sep \<in> set s"
  shows "split_on sep s ! 1
           = takeWhile (\<lambda>c. c \<noteq> sep) (drop 1 (dropWhile (\<lambda>c. c \<noteq> sep) s))"
proof -
  from dropWhile_member [OF assms] obtain r where r: "dropWhile (\<lambda>c. c \<noteq> sep) s = sep # r"
    by blast
  have "split_on sep s = takeWhile (\<lambda>c. c \<noteq> sep) s # split_on sep r"
    by (subst split_on_unfold) (simp add: r)
  then have "split_on sep s ! 1 = hd (split_on sep r)"
    using split_on_not_empty [of sep r] by (cases "split_on sep r") simp_all
  then show ?thesis
    by (simp add: split_on_hd r)
qed

lemma split_href_parts:
  "split_href h = (before_hash h, before_hash (after_hash h))"
proof (cases "CHR ''#'' \<in> set h")
  case True
  then show ?thesis
    using split_on_second [OF True]
    by (simp add: split_href_def before_hash_def after_hash_def split_on_hd)
next
  case False
  have dw: "dropWhile (\<lambda>c. c \<noteq> CHR ''#'') h = []"
    by (rule dropWhile_all) (use False in auto)
  show ?thesis
    unfolding split_href_def before_hash_def after_hash_def dw
    using False by (simp add: split_on_hd)
qed

lemma href_rebuilt:
  assumes "count_list h (CHR ''#'') \<le> 1"
  shows "(before_hash (after_hash h) = [] \<and> h = before_hash h)
       \<or> h = before_hash h @ ''#'' @ before_hash (after_hash h)"
proof (cases "CHR ''#'' \<in> set h")
  case False
  have tw: "takeWhile (\<lambda>c. c \<noteq> CHR ''#'') h = h"
    by (rule takeWhile_all) (use False in auto)
  have dw: "dropWhile (\<lambda>c. c \<noteq> CHR ''#'') h = []"
    by (rule dropWhile_all) (use False in auto)
  show ?thesis
    unfolding before_hash_def after_hash_def tw dw by simp
next
  case True
  from dropWhile_member [OF True] obtain r where
    r: "dropWhile (\<lambda>c. c \<noteq> CHR ''#'') h = CHR ''#'' # r"
    by blast
  have h: "h = takeWhile (\<lambda>c. c \<noteq> CHR ''#'') h @ CHR ''#'' # r"
    using takeWhile_dropWhile_id [of "\<lambda>c. c \<noteq> CHR ''#''" h] r by simp
  have "count_list h (CHR ''#'') = count_list (takeWhile (\<lambda>c. c \<noteq> CHR ''#'') h) (CHR ''#'')
          + Suc (count_list r (CHR ''#''))"
    by (subst h) simp
  with assms have "count_list r (CHR ''#'') = 0"
    by simp
  then have "CHR ''#'' \<notin> set r"
    by (simp add: count_list_0_iff)
  then have "takeWhile (\<lambda>c. c \<noteq> CHR ''#'') r = r"
    by (intro takeWhile_all) auto
  then have a: "before_hash (after_hash h) = r"
    unfolding before_hash_def after_hash_def r by simp
  have "h = before_hash h @ ''#'' @ before_hash (after_hash h)"
    unfolding a using h by (simp add: before_hash_def)
  then show ?thesis ..
qed

lemma entries_of_entry_of:
  "entries_of (entry_of n cs) = entry_of n cs # all_entries cs"
  by (simp add: entry_of_def all_entries_def)

lemma entry_of_sel:
  "toc_title (entry_of n cs) = nav_title n"
  "toc_href (entry_of n cs) = nav_href n"
  "file_href (entry_of n cs) = before_hash (nav_href n)"
  "anchor (entry_of n cs) = before_hash (after_hash (nav_href n))"
  by (simp_all add: entry_of_def split_href_parts)

lemma all_entries_Cons: "all_entries (x # xs) = entries_of x @ all_entries xs"
  by (simp add: all_entries_def)

lemma all_entries_Nil: "all_entries [] = []"
  by (simp add: all_entries_def)

lemma parsed_entries:
  "map (\<lambda>x. (toc_title x, toc_href x, file_href x, anchor x))
       (all_entries (parse_toc_recursive items depth))
     = map (\<lambda>n. (nav_title n, nav_href n, before_hash (nav_href n),
                  before_hash (after_hash (nav_href n)))) (nodes_of items)"
  by (induction items depth rule: parse_toc_recursive.induct)
     (simp_all add: all_entries_Nil all_entries_Cons entries_of_entry_of entry_of_sel)

lemma anchor_whole:
  assumes "count_list h (CHR ''#'') \<le> 1"
  shows "before_hash (after_hash h) = after_hash h"
proof (cases "CHR ''#'' \<in> set h")
  case False
  have dw: "dropWhile (\<lambda>c. c \<noteq> CHR ''#'') h = []"
    by (rule dropWhile_all) (use False in auto)
  show ?thesis
    unfolding before_hash_def after_hash_def dw by simp
next
  case True
  from dropWhile_member [OF True] obtain r where
    r: "dropWhile (\<lambda>c. c \<noteq> CHR ''#'') h = CHR ''#'' # r"
    by blast
  have h: "h = takeWhile (\<lambda>c. c \<noteq> CHR ''#'') h @ CHR ''#'' # r"
    using takeWhile_dropWhile_id [of "\<lambda>c. c \<noteq> CHR ''#''" h] r by simp
  have "count_list h (CHR ''#'') = count_list (takeWhile (\<lambda>c. c \<noteq> CHR ''#'') h) (CHR ''#'')
          + Suc (count_list r (CHR ''#''))"
    by (subst h) simp
  with assms have "count_list r (CHR ''#'') = 0"
    by simp
  then have "CHR ''#'' \<notin> set r"
    by (simp add: count_list_0_iff)
  then have "takeWhile (\<lambda>c. c \<noteq> CHR ''#'') r = r"
    by (intro takeWhile_all) auto
  then show ?thesis
    unfolding before_hash_def after_hash_def r by simp
qed

definition sample_toc :: "toc_item list" where
  \<comment> \<open>A section with one link below it, then something that is neither.\<close>
  "sample_toc =
     [Pair \<lparr> nav_title = ''Part One'', nav_href = ''part1.xhtml'' \<rparr>
        [Link \<lparr> nav_title = ''Economy'', nav_href = ''ch1.xhtml#top'' \<rparr>],
      Other]"

text \<open>
  What \<open>parse_toc_recursive\<close> makes of an href. Every entry, at any depth, has the title
  and the href of a navigation node of the source; its file href is the part of the
  href before the first hash sign, and its anchor is the part between the first hash
  sign and the second (or the end), empty when the href has no hash sign. For an href
  with at most one hash sign the anchor is all that follows the hash sign, and the href
  is the file href alone or the file href, a hash sign and the anchor.
\<close>

theorem toc_href_split:
  assumes "x \<in> set (all_entries (parse_toc_recursive items depth))"
  shows "(\<exists>n \<in> set (nodes_of items). toc_title x = nav_title n \<and> toc_href x = nav_href n)
     \<and> file_href x = before_hash (toc_href x)
     \<and> anchor x = before_hash (after_hash (toc_href x))
     \<and> (count_list (toc_href x) (CHR ''#'') \<le> 1 \<longrightarrow>
          anchor x = after_hash (toc_href x)
          \<and> ((anchor x = [] \<and> toc_href x = file_href x)
               \<or> toc_href x = file_href x @ ''#'' @ anchor x))"
proof -
  from assms have "(toc_title x, toc_href x, file_href x, anchor x)
      \<in> set (map (\<lambda>x. (toc_title x, toc_href x, file_href x, anchor x))
                (all_entries (parse_toc_recursive items depth)))"
    by (simp add: image_iff) blast
  then have "(toc_title x, toc_href x, file_href x, anchor x)
      \<in> set (map (\<lambda>n. (nav_title n, nav_href n, before_hash (nav_href n),
                  before_hash (after_hash (nav_href n)))) (nodes_of items))"
    by (simp only: parsed_entries)
  then obtain n where n: "n \<in> set (nodes_of items)" "toc_title x = nav_title n"
    "toc_href x = nav_href n" "file_href x = before_hash (nav_href n)"
    "anchor x = before_hash (after_hash (nav_href n))"
    by auto
  have "anchor x = after_hash (toc_href x)
          \<and> ((anchor x = [] \<and> toc_href x = file_href x)
               \<or> toc_href x = file_href x @ ''#'' @ anchor x)"
    if "count_list (toc_href x) (CHR ''#'') \<le> 1"
    using anchor_whole [OF that] href_rebuilt [OF that] n by simp
  with n show ?thesis by auto
qed

theorem toc_href_split_witness:
  "TOCEntry ''Economy'' ''ch1.xhtml#top'' ''ch1.xhtml'' ''top'' []
     \<in> set (all_entries (parse_toc_recursive sample_toc 0))
   \<and> before_hash ''ch1.xhtml#top'' = ''ch1.xhtml''
   \<and> after_hash ''ch1.xhtml#top'' = ''top''
   \<and> count_list ''ch1.xhtml#top'' (CHR ''#'') \<le> 1
   \<and> before_hash (after_hash ''ch1.xhtml#top'') = after_hash ''ch1.xhtml#top''"
proof -
  have m: "TOCEntry ''Economy'' ''ch1.xhtml#top'' ''ch1.xhtml'' ''top'' []
     \<in> set (all_entries (parse_toc_recursive sample_toc 0))"
    by code_simp
  have b: "before_hash ''ch1.xhtml#top'' = ''ch1.xhtml''"
    by code_simp
  have a: "after_hash ''ch1.xhtml#top'' = ''top''"
    by code_simp
  have c: "count_list ''ch1.xhtml#top'' (CHR ''#'') \<le> 1"
    by code_simp
  from toc_href_split [OF m] b a c show ?thesis
    using m by simp
qed

text \<open>
  Claim C3. The anchor of an entry is not all that follows the first hash sign of its
  href when the href has a second hash sign: \<open>h.split('#')[1]\<close> stops there. For the
  href \<open>text/ch 1.xhtml#s1#s2\<close> the anchor is \<open>s1\<close>, not \<open>s1#s2\<close>, and the href is not
  the file href, a hash sign and the anchor.
\<close>

theorem anchor_stops_at_second_hash:
  "parse_toc_recursive (book_toc sample_epub) 0
     = [TOCEntry ''One'' ''text/ch 1.xhtml#s1#s2'' ''text/ch 1.xhtml'' ''s1'' []]
   \<and> after_hash ''text/ch 1.xhtml#s1#s2'' = ''s1#s2''
   \<and> ''text/ch 1.xhtml#s1#s2'' \<noteq> ''text/ch 1.xhtml'' @ ''#'' @ ''s1''"
  by code_simp

section \<open>The choice of an outline level\<close>

definition normalized_levels :: "pdf_reader \<Rightarrow> (nat \<times> level_entry list) list" where
  \<comment> \<open>The dictionary \<open>normalized_by_level\<close> of \<open>get_pdf_outline_entries\<close>: the levels of
      the outline, each deduplicated.\<close>
  "normalized_levels reader =
     map (\<lambda>(level, entries). (level, dedupe_by_page entries))
       (walk (case pdf_outline reader of None \<Rightarrow> [] | Some items \<Rightarrow> items) 0 [])"



lemma outline_entries_by_levels:
  "get_pdf_outline_entries reader =
     (if normalized_levels reader = [] then [] else select_level (normalized_levels reader))"
  by (cases "pdf_outline reader")
     (auto simp: get_pdf_outline_entries_def normalized_levels_def Let_def)






section \<open>The order of chapters\<close>

definition is_document_id :: "epub_book \<Rightarrow> string \<Rightarrow> bool" where
  \<comment> \<open>The id names an item of the book that is a content document.\<close>
  "is_document_id b uid =
     (case get_item_with_id b uid of None \<Rightarrow> False | Some item \<Rightarrow> item_type item = ITEM_DOCUMENT)"

definition kept_entry :: "epub_book \<Rightarrow> nat \<times> string \<times> string \<Rightarrow> bool" where
  \<comment> \<open>The enumerated spine entry is not skipped.\<close>
  "kept_entry b entry = (case entry of (i, uid, linear) \<Rightarrow> is_document_id b uid)"

definition from_levels :: "(nat \<times> level_entry list) list \<Rightarrow> outline_entry list \<Rightarrow> bool" where
  \<comment> \<open>The entries are those of one of the levels, or there are none.\<close>
  "from_levels nl xs =
     (\<exists>es. xs = without_level es \<and> (es = [] \<or> (\<exists>l. (l, es) \<in> set nl)))"

subsection \<open>Lists\<close>

lemma enumerate_mem:
  "(i, x) \<in> set (enumerate 0 xs) \<longleftrightarrow> i < length xs \<and> xs ! i = x"
  by (simp add: in_set_enumerate_eq)

lemma map_fst_enumerate_0: "map fst (enumerate 0 xs) = [0..<length xs]"
  by (simp add: map_fst_enumerate)

lemma sorted_fst_filter: "sorted_wrt (<) (map fst (filter P (enumerate 0 xs)))"
proof -
  have "sorted_wrt (<) (map fst (enumerate 0 xs))"
    by simp
  then have "sorted_wrt (\<lambda>a b. fst a < fst b) (enumerate 0 xs)"
    by (simp only: sorted_wrt_map)
  then have "sorted_wrt (\<lambda>a b. fst a < fst b) (filter P (enumerate 0 xs))"
    by (rule sorted_wrt_filter)
  then show ?thesis
    by (simp only: sorted_wrt_map)
qed

lemma strict_sorted_index:
  "sorted_wrt (<) (xs :: nat list) \<Longrightarrow> i < length xs \<Longrightarrow> i \<le> xs ! i"
proof (induction i)
  case 0
  show ?case by simp
next
  case (Suc i)
  then have "i \<le> xs ! i"
    by simp
  moreover have "xs ! i < xs ! Suc i"
    using Suc.prems by (simp add: sorted_wrt_nth_less)
  ultimately show ?case
    by simp
qed

lemma upt_index:
  "map f xs = [0..<length xs] \<Longrightarrow> i < length xs \<Longrightarrow> f (xs ! i) = i"
proof -
  assume m: "map f xs = [0..<length xs]" and i: "i < length xs"
  from i have "f (xs ! i) = map f xs ! i"
    by simp
  also have "\<dots> = i"
    unfolding m using i by simp
  finally show ?thesis .
qed

lemma filter_prefix:
  "(\<And>i j. i \<le> j \<Longrightarrow> j < n \<Longrightarrow> P j \<Longrightarrow> P i) \<Longrightarrow>
   filter P [0..<n] = [0..<length (filter P [0..<n])]"
proof (induction n)
  case 0
  show ?case by simp
next
  case (Suc n)
  show ?case
  proof (cases "P n")
    case True
    then have "\<forall>i \<in> set [0..<n]. P i"
      using Suc.prems [of _ n] by simp
    then have "filter P [0..<n] = [0..<n]"
      by (simp add: filter_id_conv)
    with True show ?thesis
      by simp
  next
    case False
    have "filter P [0..<n] = [0..<length (filter P [0..<n])]"
      by (rule Suc.IH) (use Suc.prems in auto)
    with False show ?thesis
      by simp
  qed
qed

subsection \<open>The spine of an EPUB\<close>

lemma chapter_step_order:
  "map (\<lambda>c. (ch_order c, ch_id c)) (chapter_step e b m acc entry)
     = map (\<lambda>c. (ch_order c, ch_id c)) acc
       @ map (\<lambda>(i, uid, linear). (i, uid)) (filter (kept_entry b) [entry])"
  by (cases entry)
     (auto simp: chapter_step_def kept_entry_def is_document_id_def Let_def
           split: option.splits)

lemma chapter_foldl_order:
  "map (\<lambda>c. (ch_order c, ch_id c)) (foldl (chapter_step e b m) acc ys)
     = map (\<lambda>c. (ch_order c, ch_id c)) acc
       @ map (\<lambda>(i, uid, linear). (i, uid)) (filter (kept_entry b) ys)"
proof (induction ys arbitrary: acc)
  case Nil
  show ?case by simp
next
  case (Cons y ys)
  have "map (\<lambda>c. (ch_order c, ch_id c)) (foldl (chapter_step e b m) acc (y # ys))
      = map (\<lambda>c. (ch_order c, ch_id c)) (chapter_step e b m acc y)
        @ map (\<lambda>(i, uid, linear). (i, uid)) (filter (kept_entry b) ys)"
    using Cons.IH [of "chapter_step e b m acc y"] by simp
  then show ?case
    unfolding chapter_step_order by simp
qed

lemma epub_spine_orders:
  assumes "process_epub e p out = (Inr book, fx)" and "read_epub e p = Some b"
  shows "map (\<lambda>c. (ch_order c, ch_id c)) (spine book)
     = map (\<lambda>(i, uid, linear). (i, uid)) (filter (kept_entry b) (enumerate 0 (book_spine b)))"
proof -
  from process_epub_Inr [OF assms(1)] assms(2) obtain m where
    "spine book = foldl (chapter_step e b m) [] (enumerate 0 (book_spine b))"
    by auto
  then show ?thesis
    by (simp add: chapter_foldl_order)
qed

lemma epub_spine_order_list:
  assumes "process_epub e p out = (Inr book, fx)" and "read_epub e p = Some b"
  shows "map ch_order (spine book) = map fst (filter (kept_entry b) (enumerate 0 (book_spine b)))"
proof -
  have "map ch_order (spine book) = map fst (map (\<lambda>c. (ch_order c, ch_id c)) (spine book))"
    by (simp add: comp_def)
  also have "\<dots> = map fst (map (\<lambda>(i, uid, linear). (i, uid))
                              (filter (kept_entry b) (enumerate 0 (book_spine b))))"
    by (simp only: epub_spine_orders [OF assms])
  also have "\<dots> = map fst (filter (kept_entry b) (enumerate 0 (book_spine b)))"
    by (simp add: comp_def case_prod_beta)
  finally show ?thesis .
qed

lemma epub_chapter_source:
  assumes "process_epub e p out = (Inr book, fx)" and "read_epub e p = Some b"
    and "c \<in> set (spine book)"
  shows "ch_order c < length (book_spine b) \<and> fst (book_spine b ! ch_order c) = ch_id c
       \<and> is_document_id b (ch_id c)"
proof -
  from assms(3) have "(ch_order c, ch_id c) \<in> set (map (\<lambda>c. (ch_order c, ch_id c)) (spine book))"
    by (simp add: image_iff) blast
  then have "(ch_order c, ch_id c)
      \<in> set (map (\<lambda>(i, uid, linear). (i, uid))
                (filter (kept_entry b) (enumerate 0 (book_spine b))))"
    by (simp only: epub_spine_orders [OF assms(1,2)])
  then obtain linear where "(ch_order c, ch_id c, linear) \<in> set (enumerate 0 (book_spine b))"
    "kept_entry b (ch_order c, ch_id c, linear)"
    by auto
  then show ?thesis
    by (auto simp: enumerate_mem kept_entry_def)
qed

lemma epub_nothing_skipped:
  assumes "list_all (\<lambda>(uid, linear). is_document_id b uid) (book_spine b)"
  shows "filter (kept_entry b) (enumerate 0 (book_spine b)) = enumerate 0 (book_spine b)"
proof -
  have "kept_entry b x" if "x \<in> set (enumerate 0 (book_spine b))" for x
  proof -
    obtain i uid linear where x: "x = (i, uid, linear)"
      by (cases x) auto
    with that have "(uid, linear) \<in> set (book_spine b)"
      by (auto simp: enumerate_mem dest: nth_mem)
    with assms x show ?thesis
      by (auto simp: list_all_iff kept_entry_def)
  qed
  then show ?thesis
    by (simp add: filter_id_conv)
qed

subsection \<open>The chapters of an outlined PDF\<close>

lemma unique_by_page_subset: "set (unique_by_page seen es) \<subseteq> set es"
  by (induction es arbitrary: seen) auto

lemma unique_by_page_sorted:
  "sorted (map le_page es) \<Longrightarrow> sorted (map le_page (unique_by_page seen es))"
proof (induction es arbitrary: seen)
  case Nil
  show ?case by simp
next
  case (Cons x es)
  then have tl: "sorted (map le_page es)" and hd: "\<forall>y \<in> set es. le_page x \<le> le_page y"
    by auto
  have rest: "sorted (map le_page (unique_by_page s es))" for s
    using Cons.IH [OF tl] .
  have "\<forall>y \<in> set (unique_by_page s es). le_page x \<le> le_page y" for s
    using hd unique_by_page_subset [of s es] by blast
  with rest show ?case
    by simp
qed

lemma dedupe_sorted: "sorted (map le_page (dedupe_by_page es))"
  by (simp add: dedupe_by_page_def Let_def unique_by_page_sorted)

lemma normalized_levels_sorted:
  "(l, es) \<in> set (normalized_levels reader) \<Longrightarrow> sorted (map le_page es)"
  by (auto simp: normalized_levels_def dedupe_sorted)

lemma from_levels_empty: "from_levels nl (without_level [])"
  by (auto simp: from_levels_def)

lemma from_levels_get:
  "from_levels nl (without_level (case dict_get nl k of None \<Rightarrow> [] | Some es \<Rightarrow> es))"
proof (cases "dict_get nl k")
  case None
  then show ?thesis by (simp add: from_levels_empty)
next
  case (Some es)
  then have "(k, es) \<in> set nl"
    by (simp add: dict_get_def map_of_SomeD)
  with Some show ?thesis
    by (auto simp: from_levels_def)
qed

lemma fallback_from_levels: "from_levels nl (fallback_entries nl)"
  unfolding fallback_entries_def Let_def by (rule from_levels_get)

lemma select_level_from_levels: "from_levels nl (select_level nl)"
proof (cases "foldl best_step None nl")
  case None
  then show ?thesis
    by (simp add: select_level_def Let_def from_levels_get fallback_from_levels)
next
  case (Some best)
  obtain k c n where "best = (k, c, n)"
    by (cases best) auto
  with Some show ?thesis
    by (simp add: select_level_def Let_def from_levels_get fallback_from_levels)
qed

lemma outline_entries_sorted: "sorted (map entry_page (get_pdf_outline_entries reader))"
proof (cases "normalized_levels reader = []")
  case True
  then show ?thesis
    by (simp add: outline_entries_by_levels)
next
  case False
  from select_level_from_levels [of "normalized_levels reader"] obtain es where
    es: "select_level (normalized_levels reader) = without_level es"
    and src: "es = [] \<or> (\<exists>l. (l, es) \<in> set (normalized_levels reader))"
    unfolding from_levels_def by blast
  from src have "sorted (map le_page es)"
    using normalized_levels_sorted by auto
  moreover have "map entry_page (without_level es) = map le_page es"
    by (simp add: without_level_def comp_def)
  ultimately show ?thesis
    using False es by (simp add: outline_entries_by_levels)
qed

lemma outline_step_order:
  "map ch_order (fst (outline_step pts starts acc ie))
     = map ch_order (fst acc) @ filter (\<lambda>i. starts ! i < length pts) [fst ie]"
  by (cases acc; cases ie)
     (simp add: outline_step_def Let_def pdf_chapter_def not_le)

lemma outline_foldl_order:
  "map ch_order (fst (foldl (outline_step pts starts) acc ys))
     = map ch_order (fst acc) @ filter (\<lambda>i. starts ! i < length pts) (map fst ys)"
proof (induction ys arbitrary: acc)
  case Nil
  show ?case by simp
next
  case (Cons y ys)
  have "map ch_order (fst (foldl (outline_step pts starts) acc (y # ys)))
      = map ch_order (fst (outline_step pts starts acc y))
        @ filter (\<lambda>i. starts ! i < length pts) (map fst ys)"
    using Cons.IH [of "outline_step pts starts acc y"] by simp
  then show ?case
    unfolding outline_step_order by simp
qed

lemma page_chapter_order: "ch_order (page_chapter ip) = fst ip"
  by (cases ip) (simp add: page_chapter_def pdf_chapter_def)

lemma outlined_orders:
  assumes "sorted (map entry_page es)"
  shows "map ch_order (fst (pdf_chapters pts es)) = [0..<length (fst (pdf_chapters pts es))]"
proof (cases "es = []")
  case True
  have "ch_order \<circ> page_chapter = fst"
    by (rule ext) (simp add: page_chapter_order)
  then have "map ch_order (map page_chapter (enumerate 0 pts)) = map fst (enumerate 0 pts)"
    by simp
  with True show ?thesis
    by (simp add: pdf_chapters_no_outline)
next
  case False
  let ?starts = "map entry_page es @ [length pts]"
  let ?P = "\<lambda>i. ?starts ! i < length pts"
  have mono: "?P i" if "i \<le> j" "j < length es" "?P j" for i j
  proof -
    from that have "map entry_page es ! i \<le> map entry_page es ! j"
      using sorted_nth_mono [OF assms, of i j] by simp
    with that show ?thesis
      by (simp add: nth_append)
  qed
  have "map ch_order (fst (pdf_chapters pts es)) = filter ?P [0..<length es]"
    using False by (simp add: pdf_chapters_def Let_def outline_foldl_order)
  moreover have "filter ?P [0..<length es] = [0..<length (filter ?P [0..<length es])]"
    by (rule filter_prefix) (rule mono)
  ultimately have "map ch_order (fst (pdf_chapters pts es))
      = [0..<length (map ch_order (fst (pdf_chapters pts es)))]"
    by simp
  then show ?thesis
    by simp
qed

lemma pdf_spine_orders:
  assumes "process_pdf e p out = (Inr book, fx)"
  shows "map ch_order (spine book) = [0..<length (spine book)]"
proof -
  from process_pdf_Inr [OF assms] obtain reader where
    "spine book = fst (pdf_chapters (extract_page_texts reader) (get_pdf_outline_entries reader))"
    by blast
  then show ?thesis
    using outlined_orders [OF outline_entries_sorted] by simp
qed

lemma process_book_Inr:
  assumes "process_book e p out = (Inr book, fx)"
  shows "(lower (snd (splitext p)) = ''.epub'' \<and> process_epub e p out = (Inr book, fx))
       \<or> (lower (snd (splitext p)) = ''.pdf'' \<and> lower (snd (splitext p)) \<noteq> ''.epub''
            \<and> process_pdf e p out = (Inr book, fx))"
  using assms by (auto simp: process_book_def Let_def split: if_splits)

lemma orders_from_list:
  assumes "map ch_order cs = ns" and "sorted_wrt (<) ns"
  shows "sorted_wrt (<) (map ch_order cs) \<and> (\<forall>i < length cs. i \<le> ch_order (cs ! i))"
proof -
  have "i \<le> ch_order (cs ! i)" if "i < length cs" for i
  proof -
    from that assms(1) have "i < length ns"
      by auto
    with strict_sorted_index [OF assms(2)] have "i \<le> ns ! i"
      by simp
    moreover from that have "ns ! i = ch_order (cs ! i)"
      unfolding assms(1) [symmetric] by simp
    ultimately show ?thesis by simp
  qed
  with assms show ?thesis by simp
qed

text \<open>
  What holds of the orders. In every book that \<open>process_book\<close> returns the orders of the
  chapters increase strictly along the spine, and chapter \<open>i\<close> has an order of at least
  \<open>i\<close>. In a book made from a PDF the order of chapter \<open>i\<close> is \<open>i\<close>: the outline entries
  that are dropped come last, since the entries are sorted by page. In a book made from
  an EPUB the order of a chapter is the position of its entry in the spine of the
  source, so that the order of chapter \<open>i\<close> is \<open>i\<close> when no entry of the source spine
  is skipped.
\<close>

theorem chapter_order_positions:
  assumes "process_book e p out = (Inr book, fx)"
  shows "sorted_wrt (<) (map ch_order (spine book))
     \<and> (\<forall>i < length (spine book). i \<le> ch_order (spine book ! i))
     \<and> (lower (snd (splitext p)) = ''.pdf'' \<longrightarrow>
          (\<forall>i < length (spine book). ch_order (spine book ! i) = i))
     \<and> (\<forall>b. lower (snd (splitext p)) = ''.epub'' \<and> read_epub e p = Some b \<longrightarrow>
          (\<forall>c \<in> set (spine book).
              ch_order c < length (book_spine b) \<and> fst (book_spine b ! ch_order c) = ch_id c)
          \<and> (list_all (\<lambda>(uid, linear). is_document_id b uid) (book_spine b) \<longrightarrow>
                (\<forall>i < length (spine book). ch_order (spine book ! i) = i)))"
proof -
  from process_book_Inr [OF assms] consider
      (epub) "lower (snd (splitext p)) = ''.epub''" "process_epub e p out = (Inr book, fx)"
    | (pdf) "lower (snd (splitext p)) = ''.pdf''" "lower (snd (splitext p)) \<noteq> ''.epub''"
        "process_pdf e p out = (Inr book, fx)"
    by blast
  then show ?thesis
  proof cases
    case pdf
    have m: "map ch_order (spine book) = [0..<length (spine book)]"
      by (rule pdf_spine_orders [OF pdf(3)])
    have "sorted_wrt (<) [0..<length (spine book)]"
      by simp
    from orders_from_list [OF m this] upt_index [OF m] pdf(2) show ?thesis
      by simp
  next
    case epub
    from process_epub_Inr [OF epub(2)] obtain b0 where b0: "read_epub e p = Some b0"
      by blast
    have m: "map ch_order (spine book)
        = map fst (filter (kept_entry b0) (enumerate 0 (book_spine b0)))"
      by (rule epub_spine_order_list [OF epub(2) b0])
    have general: "sorted_wrt (<) (map ch_order (spine book))
        \<and> (\<forall>i < length (spine book). i \<le> ch_order (spine book ! i))"
      by (rule orders_from_list [OF m sorted_fst_filter])
    have src: "\<forall>c \<in> set (spine book).
        ch_order c < length (book_spine b0) \<and> fst (book_spine b0 ! ch_order c) = ch_id c"
      using epub_chapter_source [OF epub(2) b0] by blast
    have full: "\<forall>i < length (spine book). ch_order (spine book ! i) = i"
      if "list_all (\<lambda>(uid, linear). is_document_id b0 uid) (book_spine b0)"
    proof -
      from m have "map ch_order (spine book) = [0..<length (book_spine b0)]"
        by (simp add: epub_nothing_skipped [OF that] map_fst_enumerate_0)
      moreover from this have "length (spine book) = length (book_spine b0)"
        by (metis length_map length_upt minus_nat.diff_0)
      ultimately have "map ch_order (spine book) = [0..<length (spine book)]"
        by simp
      then show ?thesis
        using upt_index by blast
    qed
    from epub(1) have "lower (snd (splitext p)) \<noteq> ''.pdf''"
      by simp
    with general src full b0 show ?thesis
      by auto
  qed
qed

theorem chapter_order_positions_witness:
  "lower (snd (splitext ''walden.pdf'')) = ''.pdf''
   \<and> length (spine (projr (fst (process_book sample_env ''walden.pdf'' ''out'')))) = 2
   \<and> sorted_wrt (<)
        (map ch_order (spine (projr (fst (process_book sample_env ''walden.pdf'' ''out'')))))
   \<and> ch_order (spine (projr (fst (process_book sample_env ''walden.pdf'' ''out''))) ! 1) = 1"
proof -
  let ?r = "process_book sample_env ''walden.pdf'' ''out''"
  have r: "?r = (Inr (projr (fst ?r)), snd ?r)"
    by code_simp
  have x: "lower (snd (splitext ''walden.pdf'')) = ''.pdf''"
    by code_simp
  have n: "length (spine (projr (fst ?r))) = 2"
    by code_simp
  from chapter_order_positions [OF r] x n show ?thesis
    by simp
qed

text \<open>
  Claim C1. The order of a chapter is not always its index in the spine of the book:
  the loop of \<open>process_epub\<close> numbers the entries of the source spine and skips some of
  them. For an EPUB whose spine names a missing item and then a content document, the
  one chapter of the book, at index 0, has the order 1.
\<close>

theorem epub_order_skips_index:
  "\<not> isl (fst (process_book sample_env ''walden.epub'' ''out''))
   \<and> map ch_order (spine (projr (fst (process_book sample_env ''walden.epub'' ''out'')))) = [1]
   \<and> ch_order (spine (projr (fst (process_book sample_env ''walden.epub'' ''out''))) ! 0) \<noteq> 0"
  by code_simp

end
